theory Spec2Isabelle
  imports Main
begin

section \<open>Data model\<close>

text \<open>
  The board is the numpy array \<open>np.zeros((size, size))\<close>: a list of rows of cells, a cell
  holding 0 (empty), 1 (black) or 2 (white). A position is a pair of Python integers.
  The colour names are the strings of the source. The prisoner counters are a
  \<open>defaultdict(int)\<close>: a total function that is 0 where nothing was added. Of the game
  object the fields that the rules read or write are kept; grid lines, screen, font and
  sound serve the display only. An event of the window is a mouse click (with the column
  and row computed from the pointer), the quit request, the release of the key p, the
  press of the Return key, or anything else.
\<close>

type_synonym board = "nat list list"
type_synonym pos = "int \<times> int"

datatype error = IndexError | SystemExit

datatype event = MouseButtonUp int int | Quit | KeyUp_p | KeyDown_Return | OtherEvent

record game =
  board :: board
  size :: nat
  black_turn :: bool
  prisoners :: "string \<Rightarrow> nat"

definition WINNING_SCORE :: nat where
  "WINNING_SCORE = 1"

text \<open>\<open>board.shape[0]\<close>\<close>

definition shape0 :: "board \<Rightarrow> int" where
  "shape0 b = int (length b)"

text \<open>
  Index normalisation of numpy along an axis of length \<open>n\<close>: an index in \<open>[-n, n)\<close> is
  accepted, a negative one counts from the end, anything else raises IndexError.
\<close>

definition norm_index :: "nat \<Rightarrow> int \<Rightarrow> error + nat" where
  "norm_index n i =
     (if i < - int n \<or> int n \<le> i then Inl IndexError
      else if i < 0 then Inr (nat (i + int n)) else Inr (nat i))"

text \<open>\<open>board[i, j]\<close>\<close>

definition getitem :: "board \<Rightarrow> int \<Rightarrow> int \<Rightarrow> error + nat" where
  "getitem b i j =
     (case norm_index (length b) i of
        Inl e \<Rightarrow> Inl e
      | Inr r \<Rightarrow>
          (case norm_index (length (b ! r)) j of
             Inl e \<Rightarrow> Inl e
           | Inr c \<Rightarrow> Inr (b ! r ! c)))"

text \<open>\<open>board[i, j] = v\<close>\<close>

definition setitem :: "board \<Rightarrow> int \<Rightarrow> int \<Rightarrow> nat \<Rightarrow> error + board" where
  "setitem b i j v =
     (case norm_index (length b) i of
        Inl e \<Rightarrow> Inl e
      | Inr r \<Rightarrow>
          (case norm_index (length (b ! r)) j of
             Inl e \<Rightarrow> Inl e
           | Inr c \<Rightarrow> Inr (b[r := (b ! r)[c := v]])))"

text \<open>The Python expression \<open>board[i, j] == 0\<close>.\<close>

definition empty_at :: "board \<Rightarrow> int \<Rightarrow> int \<Rightarrow> error + bool" where
  "empty_at b i j = (case getitem b i j of Inl e \<Rightarrow> Inl e | Inr v \<Rightarrow> Inr (v = 0))"

section \<open>Module-level rules functions\<close>

text \<open>
  \<open>has_no_liberties(board, group)\<close>: the loop over the group returns False at the first
  member with an empty neighbour; each of the four tests is a short-circuit \<open>and\<close>, so the
  board is read only when the guard holds.
\<close>

fun has_no_liberties :: "board \<Rightarrow> pos list \<Rightarrow> error + bool" where
  "has_no_liberties b [] = Inr True"
| "has_no_liberties b ((x, y) # grp) =
     (case (if x > 0 then empty_at b (x - 1) y else Inr False) of
        Inl e \<Rightarrow> Inl e
      | Inr True \<Rightarrow> Inr False
      | Inr False \<Rightarrow>
     (case (if y > 0 then empty_at b x (y - 1) else Inr False) of
        Inl e \<Rightarrow> Inl e
      | Inr True \<Rightarrow> Inr False
      | Inr False \<Rightarrow>
     (case (if x < shape0 b - 1 then empty_at b (x + 1) y else Inr False) of
        Inl e \<Rightarrow> Inl e
      | Inr True \<Rightarrow> Inr False
      | Inr False \<Rightarrow>
     (case (if y < shape0 b - 1 then empty_at b x (y + 1) else Inr False) of
        Inl e \<Rightarrow> Inl e
      | Inr True \<Rightarrow> Inr False
      | Inr False \<Rightarrow> has_no_liberties b grp))))"

text \<open>
  \<open>np.where(board == color_code)\<close> zipped: the positions holding the code, row by row.
\<close>

definition np_where_eq :: "board \<Rightarrow> nat \<Rightarrow> pos list" where
  "np_where_eq b code =
     concat (map (\<lambda>x. map (\<lambda>y. (int x, int y))
                          (filter (\<lambda>y. b ! x ! y = code) [0..<length (b ! x)]))
                 [0..<length b])"

text \<open>\<open>itertools.product(range(size), range(size))\<close>\<close>

definition product_range :: "nat \<Rightarrow> pos list" where
  "product_range n = concat (map (\<lambda>x. map (\<lambda>y. (int x, int y)) [0..<n]) [0..<n])"

text \<open>
  The graph library is an external dependency. A graph is modelled by its node list; as
  in \<open>nx.grid_graph(dim=[size, size])\<close> the nodes are the pairs of the grid and two nodes
  are joined by an edge exactly when they are 4-adjacent. Removing nodes keeps the edges
  between the nodes that remain.
\<close>

definition adjacent :: "pos \<Rightarrow> pos \<Rightarrow> bool" where
  "adjacent p q = (\<bar>fst p - fst q\<bar> + \<bar>snd p - snd q\<bar> = 1)"

definition grid_graph :: "nat \<Rightarrow> pos list" where
  "grid_graph n = product_range n"

definition remove_nodes_from :: "pos list \<Rightarrow> pos list \<Rightarrow> pos list" where
  "remove_nodes_from graph ns = filter (\<lambda>p. p \<notin> set ns) graph"

text \<open>
  \<open>nx.connected_components\<close> scans the nodes and starts a breadth-first search at every
  node not seen so far. The search grows the set \<open>seen\<close> level by level until the next
  level is empty; the component is returned as the list of its nodes in discovery order.
\<close>

function plain_bfs :: "pos list \<Rightarrow> pos list \<Rightarrow> pos list" where
  "plain_bfs nodes seen =
     (let nextlevel = filter (\<lambda>w. w \<notin> set seen \<and> (\<exists>v\<in>set seen. adjacent v w)) nodes
      in if nextlevel = [] then seen else plain_bfs nodes (seen @ nextlevel))"
  by pat_completeness auto
termination
proof (relation "measure (\<lambda>(nodes, seen). card (set nodes - set seen))")
  show "wf (measure (\<lambda>(nodes, seen). card (set nodes - set seen)))" by simp
next
  fix nodes seen :: "pos list" and nextlevel
  assume nl: "nextlevel = filter (\<lambda>w. w \<notin> set seen \<and> (\<exists>v\<in>set seen. adjacent v w)) nodes"
    and ne: "nextlevel \<noteq> []"
  from ne obtain w where w: "w \<in> set nextlevel" by (cases nextlevel) auto
  with nl have "w \<in> set nodes" "w \<notin> set seen" by auto
  with w have "set nodes - set (seen @ nextlevel) \<subset> set nodes - set seen" by auto
  then have "card (set nodes - set (seen @ nextlevel)) < card (set nodes - set seen)"
    by (intro psubset_card_mono) auto
  then show "((nodes, seen @ nextlevel), (nodes, seen))
      \<in> measure (\<lambda>(nodes, seen). card (set nodes - set seen))" by simp
qed

declare plain_bfs.simps [simp del]

fun components_from :: "pos list \<Rightarrow> pos list \<Rightarrow> pos list \<Rightarrow> pos list list" where
  "components_from nodes [] seen = []"
| "components_from nodes (v # vs) seen =
     (if v \<in> set seen then components_from nodes vs seen
      else (let c = plain_bfs nodes [v]
            in c # components_from nodes vs (seen @ c)))"

definition connected_components :: "pos list \<Rightarrow> pos list list" where
  "connected_components graph = components_from graph graph []"

text \<open>The expression \<open>1 if color == "black" else 2\<close>.\<close>

definition color_code :: "string \<Rightarrow> nat" where
  "color_code color = (if color = ''black'' then 1 else 2)"

text \<open>\<open>get_stone_groups(board, color)\<close>\<close>

definition get_stone_groups :: "board \<Rightarrow> string \<Rightarrow> pos list list" where
  "get_stone_groups b color =
     (let size = length b;
          stones = np_where_eq b (color_code color);
          graph = grid_graph size;
          all_spaces = product_range size;
          stones_to_remove = filter (\<lambda>p. p \<notin> set stones) all_spaces
      in connected_components (remove_nodes_from graph stones_to_remove))"

text \<open>\<open>is_valid_move(col, row, board)\<close>\<close>

definition is_valid_move :: "int \<Rightarrow> int \<Rightarrow> board \<Rightarrow> error + bool" where
  "is_valid_move col row b =
     (if col < 0 \<or> col \<ge> shape0 b then Inr False
      else if row < 0 \<or> row \<ge> shape0 b then Inr False
      else empty_at b col row)"

section \<open>The Game class\<close>

definition Game_init :: "nat \<Rightarrow> game" where
  "Game_init n =
     \<lparr>board = replicate n (replicate n 0), size = n, black_turn = True,
      prisoners = (\<lambda>_. 0)\<rparr>"

definition pass_move :: "game \<Rightarrow> game" where
  "pass_move g = g\<lparr>black_turn := \<not> black_turn g\<rparr>"

definition Game_is_valid_move :: "game \<Rightarrow> int \<Rightarrow> int \<Rightarrow> error + bool" where
  "Game_is_valid_move g col row =
     (if col < 0 \<or> col \<ge> shape0 (board g) \<or> row < 0 \<or> row \<ge> shape0 (board g)
      then Inr False
      else empty_at (board g) col row)"

text \<open>The inner loop of \<open>capture_stones\<close> over the stones of one group.\<close>

fun remove_group :: "board \<Rightarrow> pos list \<Rightarrow> nat \<Rightarrow> error + board \<times> nat" where
  "remove_group b [] captured_count = Inr (b, captured_count)"
| "remove_group b ((i, j) # grp) captured_count =
     (case setitem b i j 0 of
        Inl e \<Rightarrow> Inl e
      | Inr b' \<Rightarrow> remove_group b' grp (captured_count + 1))"

text \<open>
  The outer loop of \<open>capture_stones\<close>: the list of groups was computed before the loop,
  the liberty test of each group reads the board as the earlier removals left it.
\<close>

fun capture_loop :: "board \<Rightarrow> pos list list \<Rightarrow> nat \<Rightarrow> error + board \<times> nat" where
  "capture_loop b [] captured_count = Inr (b, captured_count)"
| "capture_loop b (grp # grps) captured_count =
     (case has_no_liberties b grp of
        Inl e \<Rightarrow> Inl e
      | Inr True \<Rightarrow>
          (case remove_group b grp captured_count of
             Inl e \<Rightarrow> Inl e
           | Inr (b', n) \<Rightarrow> capture_loop b' grps n)
      | Inr False \<Rightarrow> capture_loop b grps captured_count)"

definition capture_stones :: "game \<Rightarrow> string \<Rightarrow> error + game \<times> nat" where
  "capture_stones g color =
     (case capture_loop (board g) (get_stone_groups (board g) color) 0 of
        Inl e \<Rightarrow> Inl e
      | Inr (b', captured_count) \<Rightarrow> Inr (g\<lparr>board := b'\<rparr>, captured_count))"

definition handle_captures :: "game \<Rightarrow> error + game" where
  "handle_captures g =
     (let self_color = (if black_turn g then ''black'' else ''white'');
          other_color = (if black_turn g then ''white'' else ''black'')
      in case capture_stones g other_color of
           Inl e \<Rightarrow> Inl e
         | Inr (g', captured_count) \<Rightarrow>
             Inr (g'\<lparr>prisoners := (prisoners g')(self_color := prisoners g' self_color + captured_count)\<rparr>))"

definition place_stone :: "game \<Rightarrow> int \<Rightarrow> int \<Rightarrow> error + game" where
  "place_stone g col row =
     (let player = (if black_turn g then 1 else 2)
      in case setitem (board g) col row player of
           Inl e \<Rightarrow> Inl e
         | Inr b' \<Rightarrow> handle_captures (g\<lparr>board := b'\<rparr>))"

definition check_winner :: "game \<Rightarrow> string option" where
  "check_winner g =
     (if prisoners g ''black'' \<ge> WINNING_SCORE then Some ''Black''
      else if prisoners g ''white'' \<ge> WINNING_SCORE then Some ''White''
      else None)"

text \<open>
  The input of the program is the event queue: the list of the batches of events that
  the successive calls of \<open>pygame.event.get()\<close> return; after the last batch of the list
  no event arrives. A function that reads events takes the queue and returns what is left
  of it. A run either returns, with the game and the rest of the queue, or it is still
  waiting inside \<open>show_winner_message\<close> when the queue ends, with the game as it stands
  then. \<open>sys.exit()\<close> raises SystemExit.
\<close>

datatype run = Returned game "event list list" | Waiting game

fun run_game :: "run \<Rightarrow> game" where
  "run_game (Returned g queue) = g"
| "run_game (Waiting g) = g"

fun is_waiting :: "run \<Rightarrow> bool" where
  "is_waiting (Waiting g) = True"
| "is_waiting (Returned g queue) = False"

text \<open>
  \<open>show_winner_message\<close>: the loop \<open>while waiting\<close> fetches a batch and goes through
  all of it: a quit request leaves the program, the Return key clears \<open>waiting\<close>, every
  other event (a click, the key p) is dropped. The function writes no field of the game.
  \<open>winner_events\<close> is the inner loop over one batch, with the value of \<open>waiting\<close>.
\<close>

fun winner_events :: "event list \<Rightarrow> bool \<Rightarrow> error + bool" where
  "winner_events [] waiting = Inr waiting"
| "winner_events (Quit # events) waiting = Inl SystemExit"
| "winner_events (KeyDown_Return # events) waiting = winner_events events False"
| "winner_events (MouseButtonUp col row # events) waiting = winner_events events waiting"
| "winner_events (KeyUp_p # events) waiting = winner_events events waiting"
| "winner_events (OtherEvent # events) waiting = winner_events events waiting"

fun show_winner_message :: "event list list \<Rightarrow> error + event list list option" where
  "show_winner_message [] = Inr None"
| "show_winner_message (events # queue) =
     (case winner_events events True of
        Inl e \<Rightarrow> Inl e
      | Inr True \<Rightarrow> show_winner_message queue
      | Inr False \<Rightarrow> Inr (Some queue))"

text \<open>
  \<open>handle_click\<close>, from the column and row that \<open>xy_to_colrow\<close> computed for the mouse
  position. Sound and drawing touch no field of the game. When \<open>check_winner\<close> returns a
  winner the winner message is shown before the turn is toggled.
\<close>

definition handle_click :: "game \<Rightarrow> int \<Rightarrow> int \<Rightarrow> event list list \<Rightarrow> error + run" where
  "handle_click g col row queue =
     (case Game_is_valid_move g col row of
        Inl e \<Rightarrow> Inl e
      | Inr False \<Rightarrow> Inr (Returned g queue)
      | Inr True \<Rightarrow>
          (case place_stone g col row of
             Inl e \<Rightarrow> Inl e
           | Inr g' \<Rightarrow>
               (case check_winner g' of
                  None \<Rightarrow> Inr (Returned (g'\<lparr>black_turn := \<not> black_turn g'\<rparr>) queue)
                | Some winner \<Rightarrow>
                    (case show_winner_message queue of
                       Inl e \<Rightarrow> Inl e
                     | Inr None \<Rightarrow> Inr (Waiting g')
                     | Inr (Some queue') \<Rightarrow>
                         Inr (Returned (g'\<lparr>black_turn := \<not> black_turn g'\<rparr>) queue')))))"

text \<open>
  \<open>update\<close> fetches one batch and handles its events in turn; \<open>update_events\<close> is its
  loop over the batch.
\<close>

fun update_events :: "game \<Rightarrow> event list \<Rightarrow> event list list \<Rightarrow> error + run" where
  "update_events g [] queue = Inr (Returned g queue)"
| "update_events g (MouseButtonUp col row # events) queue =
     (case handle_click g col row queue of
        Inl e \<Rightarrow> Inl e
      | Inr (Waiting g') \<Rightarrow> Inr (Waiting g')
      | Inr (Returned g' queue') \<Rightarrow> update_events g' events queue')"
| "update_events g (Quit # events) queue = Inl SystemExit"
| "update_events g (KeyUp_p # events) queue = update_events (pass_move g) events queue"
| "update_events g (KeyDown_Return # events) queue = update_events g events queue"
| "update_events g (OtherEvent # events) queue = update_events g events queue"

definition update :: "game \<Rightarrow> event list list \<Rightarrow> error + run" where
  "update g queue =
     (case queue of
        [] \<Rightarrow> Inr (Returned g [])
      | events # queue' \<Rightarrow> update_events g events queue')"

text \<open>
  The loop \<open>while True: self.update()\<close> of \<open>play_game\<close>, for as long as the queue has
  batches. Every call of \<open>update\<close> uses up at least the batch it fetches, which is why the
  loop over a finite queue ends.
\<close>

function main_loop :: "game \<Rightarrow> event list list \<Rightarrow> error + run" where
  "main_loop g [] = Inr (Returned g [])"
| "main_loop g (events # queue) =
     (case update g (events # queue) of
        Inl e \<Rightarrow> Inl e
      | Inr (Waiting g') \<Rightarrow> Inr (Waiting g')
      | Inr (Returned g' queue') \<Rightarrow> main_loop g' queue')"
  by pat_completeness auto
termination
proof (relation "measure (\<lambda>(g, queue). length queue)")
  show "wf (measure (\<lambda>(g, queue). length queue))" by simp
next
  fix g :: game and events :: "event list" and queue :: "event list list"
    and r :: run and g' :: game and queue' :: "event list list"
  assume upd: "update g (events # queue) = Inr r" and r: "r = Returned g' queue'"
  have msg: "length q' \<le> length q" if "show_winner_message q = Inr (Some q')" for q q'
    using that
  proof (induction q)
    case Nil
    then show ?case by simp
  next
    case (Cons es q)
    then show ?case
      by (cases "winner_events es True") (auto split: bool.splits)
  qed
  have click: "length q' \<le> length q"
    if "handle_click h col row q = Inr (Returned h' q')" for h col row q h' q'
    using that msg
    by (auto simp: handle_click_def split: sum.splits bool.splits option.splits)
  have loop: "length q' \<le> length q"
    if "update_events h es q = Inr (Returned h' q')" for h es q h' q'
    using that
  proof (induction es arbitrary: h q)
    case Nil
    then show ?case by simp
  next
    case (Cons ev es)
    show ?case
    proof (cases ev)
      case (MouseButtonUp col row)
      with Cons.prems obtain h1 q1 where
        c: "handle_click h col row q = Inr (Returned h1 q1)"
        and rest: "update_events h1 es q1 = Inr (Returned h' q')"
        by (auto split: sum.splits run.splits)
      from click[OF c] Cons.IH[OF rest] show ?thesis by simp
    next
      case Quit
      with Cons.prems show ?thesis by simp
    next
      case KeyUp_p
      with Cons.prems Cons.IH show ?thesis by simp
    next
      case KeyDown_Return
      with Cons.prems Cons.IH show ?thesis by simp
    next
      case OtherEvent
      with Cons.prems Cons.IH show ?thesis by simp
    qed
  qed
  from upd r have "update_events g events queue = Inr (Returned g' queue')"
    by (simp add: update_def)
  from loop[OF this] show "((g', queue'), (g, events # queue)) \<in> measure (\<lambda>(g, queue). length queue)"
    by simp
qed

section \<open>Notions used in the statements\<close>

text \<open>
  A board built by \<open>np.zeros((size, size))\<close> is square; the positions of the grid are
  the pairs within \<open>[0, N)\<close> on both axes. \<open>cell\<close> reads a board at a position of
  the grid. A member of a group has a liberty when an adjacent position of the grid is
  empty. \<open>component_of S v\<close> is the set of positions linked to \<open>v\<close> by a chain of
  adjacent positions of \<open>S\<close>; \<open>stones_of\<close> is the set of positions holding a colour and
  \<open>stone_graph\<close> names the graph that \<open>get_stone_groups\<close> hands to the component search.
\<close>

definition square :: "board \<Rightarrow> bool" where
  "square b = (\<forall>row\<in>set b. length row = length b)"

definition in_bounds :: "board \<Rightarrow> pos \<Rightarrow> bool" where
  "in_bounds b p = (0 \<le> fst p \<and> fst p < shape0 b \<and> 0 \<le> snd p \<and> snd p < shape0 b)"

definition cell :: "board \<Rightarrow> pos \<Rightarrow> nat" where
  "cell b p = b ! nat (fst p) ! nat (snd p)"

definition has_liberty_at :: "board \<Rightarrow> pos \<Rightarrow> bool" where
  "has_liberty_at b p = (\<exists>q. adjacent p q \<and> in_bounds b q \<and> getitem b (fst q) (snd q) = Inr 0)"

definition adj_rel :: "pos set \<Rightarrow> (pos \<times> pos) set" where
  "adj_rel S = {(p, q). p \<in> S \<and> q \<in> S \<and> adjacent p q}"

definition component_of :: "pos set \<Rightarrow> pos \<Rightarrow> pos set" where
  "component_of S v = (adj_rel S)\<^sup>* `` {v}"

definition closed_under :: "pos set \<Rightarrow> pos set \<Rightarrow> bool" where
  "closed_under S A = (\<forall>p\<in>A. component_of S p \<subseteq> A)"

definition stones_of :: "board \<Rightarrow> string \<Rightarrow> pos set" where
  "stones_of b color =
     {p. in_bounds b p \<and> getitem b (fst p) (snd p) = Inr (color_code color)}"

definition stone_graph :: "board \<Rightarrow> string \<Rightarrow> pos list" where
  "stone_graph b color =
     remove_nodes_from (grid_graph (length b))
       (filter (\<lambda>p. p \<notin> set (np_where_eq b (color_code color))) (product_range (length b)))"

text \<open>
  \<open>player_code\<close> is the code that \<open>place_stone\<close> writes for the player to move and
  \<open>other_color\<close> the colour that \<open>handle_captures\<close> sweeps.
\<close>

definition player_code :: "game \<Rightarrow> nat" where
  "player_code g = (if black_turn g then 1 else 2)"

definition other_color :: "game \<Rightarrow> string" where
  "other_color g = (if black_turn g then ''white'' else ''black'')"

text \<open>
  The capture of the specification, in its own words: the liberties of every group are
  computed against the board as it stood before any removal of the sweep, and the groups
  without liberties are removed together. \<open>clear_cells\<close> empties a set of positions at
  once; \<open>dead\<close> lists the stones of the groups that have no liberty on a given board.
\<close>

definition clear_cells :: "board \<Rightarrow> pos list \<Rightarrow> board" where
  "clear_cells b ps =
     map (\<lambda>x. map (\<lambda>y. if (int x, int y) \<in> set ps then 0 else b ! x ! y) [0..<length (b ! x)])
         [0..<length b]"

definition dead :: "board \<Rightarrow> pos list list \<Rightarrow> pos list" where
  "dead b grps = concat (filter (\<lambda>g. has_no_liberties b g = Inr True) grps)"

definition capture_simultaneous :: "board \<Rightarrow> string \<Rightarrow> board \<times> nat" where
  "capture_simultaneous b color =
     (let grps = get_stone_groups b color;
          captured = concat (filter (\<lambda>g. has_no_liberties b g = Inr True) grps)
      in (clear_cells b captured, length captured))"

section \<open>Reading and writing cells of a square board\<close>

lemma norm_index_in_range: "0 \<le> i \<Longrightarrow> i < int n \<Longrightarrow> norm_index n i = Inr (nat i)"
  by (simp add: norm_index_def)

lemma square_row_length: "square b \<Longrightarrow> r < length b \<Longrightarrow> length (b ! r) = length b"
  by (simp add: square_def)

lemma getitem_cell:
  assumes "square b" "in_bounds b (x, y)"
  shows "getitem b x y = Inr (cell b (x, y))"
proof -
  from assms(2) have x: "0 \<le> x" "x < int (length b)" and y: "0 \<le> y" "y < int (length b)"
    by (simp_all add: in_bounds_def shape0_def)
  from x have r: "nat x < length b" by simp
  have len: "length (b ! nat x) = length b" using assms(1) r by (rule square_row_length)
  show ?thesis
    using x y by (simp add: getitem_def norm_index_in_range len cell_def)
qed

lemma empty_at_cell:
  "square b \<Longrightarrow> in_bounds b (x, y) \<Longrightarrow> empty_at b x y = Inr (cell b (x, y) = 0)"
  by (simp add: empty_at_def getitem_cell)

lemma setitem_cell:
  assumes "square b" "in_bounds b (x, y)"
  shows "setitem b x y v = Inr (b[nat x := (b ! nat x)[nat y := v]])"
proof -
  from assms(2) have x: "0 \<le> x" "x < int (length b)" and y: "0 \<le> y" "y < int (length b)"
    by (simp_all add: in_bounds_def shape0_def)
  from x have r: "nat x < length b" by simp
  have len: "length (b ! nat x) = length b" using assms(1) r by (rule square_row_length)
  show ?thesis
    using x y by (simp add: setitem_def norm_index_in_range len)
qed

lemma square_update:
  assumes "square b"
  shows "square (b[r := (b ! r)[c := v]])"
proof (cases "r < length b")
  case True
  show ?thesis unfolding square_def
  proof
    fix row assume "row \<in> set (b[r := (b ! r)[c := v]])"
    then have "row \<in> insert ((b ! r)[c := v]) (set b)"
      using set_update_subset_insert by fastforce
    then show "length row = length (b[r := (b ! r)[c := v]])"
      using assms True by (auto simp: square_def)
  qed
next
  case False
  then have "b[r := (b ! r)[c := v]] = b" by (simp add: list_update_beyond)
  then show ?thesis using assms by simp
qed

lemma in_bounds_update [simp]: "in_bounds (b[r := row]) p = in_bounds b p"
  by (simp add: in_bounds_def shape0_def)

lemma cell_update:
  assumes "square b" "in_bounds b (x, y)" "in_bounds b p"
  shows "cell (b[nat x := (b ! nat x)[nat y := v]]) p = (if p = (x, y) then v else cell b p)"
proof -
  obtain px py where p: "p = (px, py)" by (cases p)
  from assms(2) have x: "0 \<le> x" "nat x < length b" and y: "0 \<le> y" "nat y < length b"
    by (auto simp: in_bounds_def shape0_def)
  from assms(3) p have px: "0 \<le> px" "nat px < length b" and py: "0 \<le> py" "nat py < length b"
    by (auto simp: in_bounds_def shape0_def)
  have len: "length (b ! nat x) = length b" using assms(1) x(2) by (rule square_row_length)
  show ?thesis
  proof (cases "px = x")
    case True
    then show ?thesis using x y px py p len
      by (auto simp: cell_def nth_list_update)
  next
    case False
    then have "nat px \<noteq> nat x" using x px by simp
    then show ?thesis using False p by (simp add: cell_def)
  qed
qed

lemma board_ext:
  assumes "square b" "square b'" "length b = length b'"
    and "\<And>p. in_bounds b p \<Longrightarrow> cell b p = cell b' p"
  shows "b = b'"
proof (rule nth_equalityI)
  show "length b = length b'" by fact
next
  fix i assume i: "i < length b"
  have li: "length (b ! i) = length b" using assms(1) i by (rule square_row_length)
  have li': "length (b' ! i) = length b'" using assms(2) i assms(3) by (simp add: square_row_length)
  show "b ! i = b' ! i"
  proof (rule nth_equalityI)
    show "length (b ! i) = length (b' ! i)" using li li' assms(3) by simp
  next
    fix j assume j: "j < length (b ! i)"
    then have "in_bounds b (int i, int j)" using i li by (simp add: in_bounds_def shape0_def)
    from assms(4)[OF this] show "b ! i ! j = b' ! i ! j" by (simp add: cell_def)
  qed
qed

section \<open>Liberties\<close>

lemma adjacent_iff:
  "adjacent (x, y) q \<longleftrightarrow> q = (x - 1, y) \<or> q = (x, y - 1) \<or> q = (x + 1, y) \<or> q = (x, y + 1)"
  by (cases q) (auto simp: adjacent_def)

lemma adjacent_sym: "adjacent p q \<Longrightarrow> adjacent q p"
  by (auto simp: adjacent_def)

lemma adjacent_irrefl: "\<not> adjacent p p"
  by (simp add: adjacent_def)

lemma has_liberty_at_cell:
  assumes "square b"
  shows "has_liberty_at b p \<longleftrightarrow> (\<exists>q. adjacent p q \<and> in_bounds b q \<and> cell b q = 0)"
  unfolding has_liberty_at_def using getitem_cell[OF assms]
  by (metis Inr_inject prod.collapse)

lemma has_no_liberties_step:
  assumes sq: "square b" and ib: "in_bounds b (x, y)"
  shows "has_no_liberties b ((x, y) # g) =
         (if has_liberty_at b (x, y) then Inr False else has_no_liberties b g)"
proof -
  from ib have x: "0 \<le> x" "x < shape0 b" and y: "0 \<le> y" "y < shape0 b"
    by (simp_all add: in_bounds_def)
  have w: "x > 0 \<Longrightarrow> empty_at b (x - 1) y = Inr (cell b (x - 1, y) = 0)"
    using x y by (intro empty_at_cell[OF sq]) (simp add: in_bounds_def)
  have n: "y > 0 \<Longrightarrow> empty_at b x (y - 1) = Inr (cell b (x, y - 1) = 0)"
    using x y by (intro empty_at_cell[OF sq]) (simp add: in_bounds_def)
  have e: "x < shape0 b - 1 \<Longrightarrow> empty_at b (x + 1) y = Inr (cell b (x + 1, y) = 0)"
    using x y by (intro empty_at_cell[OF sq]) (simp add: in_bounds_def)
  have s: "y < shape0 b - 1 \<Longrightarrow> empty_at b x (y + 1) = Inr (cell b (x, y + 1) = 0)"
    using x y by (intro empty_at_cell[OF sq]) (simp add: in_bounds_def)
  have "has_liberty_at b (x, y) \<longleftrightarrow>
      (in_bounds b (x - 1, y) \<and> cell b (x - 1, y) = 0) \<or>
      (in_bounds b (x, y - 1) \<and> cell b (x, y - 1) = 0) \<or>
      (in_bounds b (x + 1, y) \<and> cell b (x + 1, y) = 0) \<or>
      (in_bounds b (x, y + 1) \<and> cell b (x, y + 1) = 0)"
    unfolding has_liberty_at_cell[OF sq] adjacent_iff by blast
  moreover have "in_bounds b (x - 1, y) \<longleftrightarrow> x > 0" "in_bounds b (x, y - 1) \<longleftrightarrow> y > 0"
    "in_bounds b (x + 1, y) \<longleftrightarrow> x < shape0 b - 1" "in_bounds b (x, y + 1) \<longleftrightarrow> y < shape0 b - 1"
    using x y by (auto simp: in_bounds_def)
  ultimately have lib: "has_liberty_at b (x, y) \<longleftrightarrow>
      (x > 0 \<and> cell b (x - 1, y) = 0) \<or> (y > 0 \<and> cell b (x, y - 1) = 0) \<or>
      (x < shape0 b - 1 \<and> cell b (x + 1, y) = 0) \<or> (y < shape0 b - 1 \<and> cell b (x, y + 1) = 0)"
    by simp
  have g1: "(if x > 0 then empty_at b (x - 1) y else Inr False) = Inr (x > 0 \<and> cell b (x - 1, y) = 0)"
    using w by simp
  have g2: "(if y > 0 then empty_at b x (y - 1) else Inr False) = Inr (y > 0 \<and> cell b (x, y - 1) = 0)"
    using n by simp
  have g3: "(if x < shape0 b - 1 then empty_at b (x + 1) y else Inr False)
      = Inr (x < shape0 b - 1 \<and> cell b (x + 1, y) = 0)"
    using e by simp
  have g4: "(if y < shape0 b - 1 then empty_at b x (y + 1) else Inr False)
      = Inr (y < shape0 b - 1 \<and> cell b (x, y + 1) = 0)"
    using s by simp
  show ?thesis
    unfolding has_no_liberties.simps g1 g2 g3 g4 lib
    by (simp add: bool.case_eq_if)
qed

lemma has_no_liberties_cell:
  assumes "square b" "\<forall>p\<in>set g. in_bounds b p"
  shows "has_no_liberties b g = Inr (\<forall>p\<in>set g. \<not> has_liberty_at b p)"
  using assms(2)
proof (induction g)
  case Nil
  show ?case by simp
next
  case (Cons p g)
  obtain x y where p: "p = (x, y)" by (cases p)
  from Cons.prems have ib: "in_bounds b (x, y)" and rest: "\<forall>p\<in>set g. in_bounds b p"
    by (simp_all add: p)
  show ?case
    unfolding p has_no_liberties_step[OF assms(1) ib] using Cons.IH[OF rest] by simp
qed

section \<open>Components of the adjacency relation\<close>

lemma sym_adj_rel: "sym (adj_rel S)"
  by (auto simp: sym_def adj_rel_def adjacent_sym)

lemma adj_rel_rtrancl_sym: "(p, q) \<in> (adj_rel S)\<^sup>* \<Longrightarrow> (q, p) \<in> (adj_rel S)\<^sup>*"
  using sym_adj_rel sym_rtrancl by (metis symD)

lemma component_of_self: "v \<in> component_of S v"
  by (simp add: component_of_def)

lemma component_of_subset: "v \<in> S \<Longrightarrow> component_of S v \<subseteq> S"
proof
  fix w assume v: "v \<in> S" and "w \<in> component_of S v"
  then have "(v, w) \<in> (adj_rel S)\<^sup>*" by (simp add: component_of_def)
  then show "w \<in> S" using v by (induction rule: rtrancl_induct) (auto simp: adj_rel_def)
qed

lemma component_of_closed:
  "u \<in> component_of S v \<Longrightarrow> (u, w) \<in> adj_rel S \<Longrightarrow> w \<in> component_of S v"
  by (auto simp: component_of_def intro: rtrancl_into_rtrancl)

lemma component_of_eq:
  assumes "u \<in> component_of S v"
  shows "component_of S u = component_of S v"
proof -
  from assms have vu: "(v, u) \<in> (adj_rel S)\<^sup>*" by (simp add: component_of_def)
  then have uv: "(u, v) \<in> (adj_rel S)\<^sup>*" by (rule adj_rel_rtrancl_sym)
  show ?thesis unfolding component_of_def using vu uv
    by (auto intro: rtrancl_trans)
qed

lemma component_of_disjoint:
  assumes "u \<notin> component_of S v"
  shows "component_of S u \<inter> component_of S v = {}"
proof (rule ccontr)
  assume "component_of S u \<inter> component_of S v \<noteq> {}"
  then obtain w where "w \<in> component_of S u" "w \<in> component_of S v" by auto
  then have "component_of S u = component_of S v"
    using component_of_eq by metis
  with component_of_self[of u S] assms show False by simp
qed

section \<open>The breadth-first search\<close>

lemma plain_bfs_seen: "set seen \<subseteq> set (plain_bfs nodes seen)"
proof (induction nodes seen rule: plain_bfs.induct)
  case (1 nodes seen)
  show ?case
    using "1.IH" by (subst plain_bfs.simps) (auto simp: Let_def)
qed

lemma plain_bfs_closed:
  "v \<in> set (plain_bfs nodes seen) \<Longrightarrow> w \<in> set nodes \<Longrightarrow> adjacent v w
    \<Longrightarrow> w \<in> set (plain_bfs nodes seen)"
proof (induction nodes seen rule: plain_bfs.induct)
  case (1 nodes seen)
  let ?nl = "filter (\<lambda>w. w \<notin> set seen \<and> (\<exists>v\<in>set seen. adjacent v w)) nodes"
  show ?case
  proof (cases "?nl = []")
    case True
    then have res: "plain_bfs nodes seen = seen"
      by (subst plain_bfs.simps) (simp add: Let_def)
    with "1.prems" have v: "v \<in> set seen" by simp
    have "w \<in> set seen"
    proof (rule ccontr)
      assume "w \<notin> set seen"
      with v "1.prems" have "w \<in> set ?nl" by auto
      with True show False by simp
    qed
    with res show ?thesis by simp
  next
    case False
    then have res: "plain_bfs nodes seen = plain_bfs nodes (seen @ ?nl)"
      by (subst plain_bfs.simps) (simp add: Let_def)
    from "1.IH"[OF refl False] "1.prems" show ?thesis unfolding res by simp
  qed
qed

lemma plain_bfs_sound:
  "set seen \<subseteq> C \<Longrightarrow> \<forall>v\<in>C. \<forall>w\<in>set nodes. adjacent v w \<longrightarrow> w \<in> C
    \<Longrightarrow> set (plain_bfs nodes seen) \<subseteq> C"
proof (induction nodes seen rule: plain_bfs.induct)
  case (1 nodes seen)
  let ?nl = "filter (\<lambda>w. w \<notin> set seen \<and> (\<exists>v\<in>set seen. adjacent v w)) nodes"
  show ?case
  proof (cases "?nl = []")
    case True
    then have "plain_bfs nodes seen = seen"
      by (subst plain_bfs.simps) (simp add: Let_def)
    with "1.prems" show ?thesis by simp
  next
    case False
    then have res: "plain_bfs nodes seen = plain_bfs nodes (seen @ ?nl)"
      by (subst plain_bfs.simps) (simp add: Let_def)
    have "set ?nl \<subseteq> C" using "1.prems" by auto
    with "1.prems" have "set (seen @ ?nl) \<subseteq> C" by simp
    from "1.IH"[OF refl False this "1.prems"(2)] show ?thesis unfolding res .
  qed
qed

lemma plain_bfs_distinct:
  "distinct nodes \<Longrightarrow> distinct seen \<Longrightarrow> distinct (plain_bfs nodes seen)"
proof (induction nodes seen rule: plain_bfs.induct)
  case (1 nodes seen)
  let ?nl = "filter (\<lambda>w. w \<notin> set seen \<and> (\<exists>v\<in>set seen. adjacent v w)) nodes"
  show ?case
  proof (cases "?nl = []")
    case True
    then have "plain_bfs nodes seen = seen"
      by (subst plain_bfs.simps) (simp add: Let_def)
    with "1.prems" show ?thesis by simp
  next
    case False
    then have res: "plain_bfs nodes seen = plain_bfs nodes (seen @ ?nl)"
      by (subst plain_bfs.simps) (simp add: Let_def)
    have "distinct (seen @ ?nl)" using "1.prems" by auto
    from "1.IH"[OF refl False "1.prems"(1) this] show ?thesis unfolding res .
  qed
qed

lemma plain_bfs_component:
  assumes "v \<in> set nodes"
  shows "set (plain_bfs nodes [v]) = component_of (set nodes) v"
proof
  show "set (plain_bfs nodes [v]) \<subseteq> component_of (set nodes) v"
  proof (rule plain_bfs_sound)
    show "set [v] \<subseteq> component_of (set nodes) v" by (simp add: component_of_self)
  next
    show "\<forall>u\<in>component_of (set nodes) v. \<forall>w\<in>set nodes. adjacent u w
        \<longrightarrow> w \<in> component_of (set nodes) v"
    proof (intro ballI impI)
      fix u w assume u: "u \<in> component_of (set nodes) v" and w: "w \<in> set nodes" "adjacent u w"
      from u assms have "u \<in> set nodes" using component_of_subset by blast
      with w have "(u, w) \<in> adj_rel (set nodes)" by (simp add: adj_rel_def)
      with u show "w \<in> component_of (set nodes) v" by (rule component_of_closed)
    qed
  qed
next
  show "component_of (set nodes) v \<subseteq> set (plain_bfs nodes [v])"
  proof
    fix w assume "w \<in> component_of (set nodes) v"
    then have "(v, w) \<in> (adj_rel (set nodes))\<^sup>*" by (simp add: component_of_def)
    then show "w \<in> set (plain_bfs nodes [v])"
    proof (induction rule: rtrancl_induct)
      case base
      show ?case using plain_bfs_seen[of "[v]" nodes] by simp
    next
      case (step y z)
      then show ?case using plain_bfs_closed[of y nodes "[v]" z] by (simp add: adj_rel_def)
    qed
  qed
qed

section \<open>The list of components\<close>

lemma components_from_component:
  "set vs \<subseteq> set nodes \<Longrightarrow> g \<in> set (components_from nodes vs seen)
    \<Longrightarrow> \<exists>v\<in>set vs. v \<notin> set seen \<and> g = plain_bfs nodes [v] \<and> set g = component_of (set nodes) v"
proof (induction vs arbitrary: seen)
  case Nil
  then show ?case by simp
next
  case (Cons v vs)
  from Cons.prems(1) have v: "v \<in> set nodes" and vs: "set vs \<subseteq> set nodes" by simp_all
  show ?case
  proof (cases "v \<in> set seen")
    case True
    with Cons.prems(2) have "g \<in> set (components_from nodes vs seen)" by simp
    from Cons.IH[OF vs this] show ?thesis by auto
  next
    case False
    with Cons.prems(2) have
      "g = plain_bfs nodes [v] \<or> g \<in> set (components_from nodes vs (seen @ plain_bfs nodes [v]))"
      by (simp add: Let_def)
    then show ?thesis
    proof
      assume "g = plain_bfs nodes [v]"
      with False plain_bfs_component[OF v] show ?thesis by auto
    next
      assume "g \<in> set (components_from nodes vs (seen @ plain_bfs nodes [v]))"
      from Cons.IH[OF vs this] show ?thesis by auto
    qed
  qed
qed

lemma components_from_cover:
  "set vs \<subseteq> set seen \<union> \<Union> (set ` set (components_from nodes vs seen))"
proof (induction vs arbitrary: seen)
  case Nil
  show ?case by simp
next
  case (Cons v vs)
  show ?case
  proof (cases "v \<in> set seen")
    case True
    then show ?thesis using Cons.IH[of seen] by auto
  next
    case False
    have "v \<in> set (plain_bfs nodes [v])" using plain_bfs_seen[of "[v]" nodes] by simp
    then show ?thesis using False Cons.IH[of "seen @ plain_bfs nodes [v]"]
      by (auto simp: Let_def)
  qed
qed

lemma components_from_fresh:
  assumes "closed_under (set nodes) (set seen)" "set vs \<subseteq> set nodes"
    and "g \<in> set (components_from nodes vs seen)"
  shows "set g \<inter> set seen = {}"
proof (rule ccontr)
  assume "set g \<inter> set seen \<noteq> {}"
  then obtain q where q: "q \<in> set g" "q \<in> set seen" by auto
  from components_from_component[OF assms(2,3)] obtain v
    where v: "v \<notin> set seen" "set g = component_of (set nodes) v" by auto
  from q(1) v(2) have "component_of (set nodes) q = component_of (set nodes) v"
    by (simp add: component_of_eq)
  then have "v \<in> component_of (set nodes) q" by (simp add: component_of_self)
  with assms(1) q(2) have "v \<in> set seen" by (auto simp: closed_under_def)
  with v(1) show False by simp
qed

lemma closed_under_append:
  assumes "closed_under S (set seen)" "set c = component_of S v"
  shows "closed_under S (set (seen @ c))"
  unfolding closed_under_def
proof
  fix p assume "p \<in> set (seen @ c)"
  then consider "p \<in> set seen" | "p \<in> set c" by auto
  then show "component_of S p \<subseteq> set (seen @ c)"
  proof cases
    case 1
    with assms(1) show ?thesis by (auto simp: closed_under_def)
  next
    case 2
    with assms(2) have "component_of S p = set c" by (simp add: component_of_eq)
    then show ?thesis by auto
  qed
qed

lemma components_from_disjoint:
  assumes "closed_under (set nodes) (set seen)" "set vs \<subseteq> set nodes"
  shows "distinct (components_from nodes vs seen) \<and>
         (\<forall>g\<in>set (components_from nodes vs seen). \<forall>h\<in>set (components_from nodes vs seen).
             g \<noteq> h \<longrightarrow> set g \<inter> set h = {})"
  using assms
proof (induction vs arbitrary: seen)
  case Nil
  show ?case by simp
next
  case (Cons v vs)
  from Cons.prems(2) have v: "v \<in> set nodes" and vs: "set vs \<subseteq> set nodes" by simp_all
  show ?case
  proof (cases "v \<in> set seen")
    case True
    then show ?thesis using Cons.IH[OF Cons.prems(1) vs] by simp
  next
    case False
    let ?c = "plain_bfs nodes [v]"
    let ?rest = "components_from nodes vs (seen @ ?c)"
    have res: "components_from nodes (v # vs) seen = ?c # ?rest"
      using False by (simp add: Let_def)
    have c: "set ?c = component_of (set nodes) v" by (rule plain_bfs_component[OF v])
    have cl: "closed_under (set nodes) (set (seen @ ?c))"
      using Cons.prems(1) c by (rule closed_under_append)
    note IH = Cons.IH[OF cl vs]
    have fresh: "set h \<inter> set ?c = {}" if "h \<in> set ?rest" for h
      using components_from_fresh[OF cl vs that] by auto
    have vc: "v \<in> set ?c" by (simp add: c component_of_self)
    have "?c \<notin> set ?rest" using fresh[of ?c] vc by auto
    then show ?thesis unfolding res using IH fresh by (auto simp: Int_commute)
  qed
qed

section \<open>The graph of the stones of a colour\<close>

lemma stones_of_cell:
  "square b \<Longrightarrow> stones_of b color = {p. in_bounds b p \<and> cell b p = color_code color}"
  unfolding stones_of_def using getitem_cell by (auto simp: in_bounds_def)

lemma set_product_range:
  "set (product_range n) = {p. 0 \<le> fst p \<and> fst p < int n \<and> 0 \<le> snd p \<and> snd p < int n}"
proof (rule set_eqI)
  fix p :: pos
  obtain x y where p: "p = (x, y)" by (cases p)
  have "p \<in> set (product_range n) \<longleftrightarrow> (\<exists>i<n. \<exists>j<n. x = int i \<and> y = int j)"
    unfolding product_range_def p by (auto simp: image_iff Bex_def)
  also have "\<dots> \<longleftrightarrow> 0 \<le> x \<and> x < int n \<and> 0 \<le> y \<and> y < int n"
  proof
    assume "0 \<le> x \<and> x < int n \<and> 0 \<le> y \<and> y < int n"
    then have "nat x < n \<and> nat y < n \<and> x = int (nat x) \<and> y = int (nat y)" by auto
    then show "\<exists>i<n. \<exists>j<n. x = int i \<and> y = int j" by blast
  qed auto
  finally show "p \<in> set (product_range n) \<longleftrightarrow>
      p \<in> {p. 0 \<le> fst p \<and> fst p < int n \<and> 0 \<le> snd p \<and> snd p < int n}"
    by (simp add: p)
qed

lemma distinct_product_range: "distinct (product_range n)"
  unfolding product_range_def
  by (rule distinct_concat) (auto simp: distinct_map inj_on_def)

lemma set_np_where_eq:
  assumes "square b"
  shows "set (np_where_eq b code) = {p. in_bounds b p \<and> cell b p = code}"
proof (rule set_eqI)
  fix p :: pos
  obtain x y where p: "p = (x, y)" by (cases p)
  have "p \<in> set (np_where_eq b code)
      \<longleftrightarrow> (\<exists>i<length b. \<exists>j<length (b ! i). b ! i ! j = code \<and> x = int i \<and> y = int j)"
    unfolding np_where_eq_def p by auto
  also have "\<dots> \<longleftrightarrow> (\<exists>i<length b. \<exists>j<length b. b ! i ! j = code \<and> x = int i \<and> y = int j)"
    using assms by (metis square_row_length)
  also have "\<dots> \<longleftrightarrow> in_bounds b (x, y) \<and> cell b (x, y) = code"
  proof
    assume a: "in_bounds b (x, y) \<and> cell b (x, y) = code"
    then have "nat x < length b \<and> nat y < length b \<and> b ! nat x ! nat y = code
        \<and> x = int (nat x) \<and> y = int (nat y)"
      by (auto simp: in_bounds_def shape0_def cell_def)
    then show "\<exists>i<length b. \<exists>j<length b. b ! i ! j = code \<and> x = int i \<and> y = int j" by blast
  qed (auto simp: in_bounds_def shape0_def cell_def)
  finally show "p \<in> set (np_where_eq b code) \<longleftrightarrow> p \<in> {p. in_bounds b p \<and> cell b p = code}"
    by (simp add: p)
qed

lemma get_stone_groups_graph:
  "get_stone_groups b color = connected_components (stone_graph b color)"
  by (simp add: get_stone_groups_def stone_graph_def Let_def)

lemma set_stone_graph:
  assumes "square b"
  shows "set (stone_graph b color) = stones_of b color"
  unfolding stone_graph_def remove_nodes_from_def grid_graph_def stones_of_cell[OF assms]
  by (auto simp: set_product_range set_np_where_eq[OF assms] in_bounds_def shape0_def)

lemma distinct_stone_graph: "distinct (stone_graph b color)"
  by (simp add: stone_graph_def remove_nodes_from_def grid_graph_def distinct_product_range)

section \<open>The groups of a colour\<close>

lemma closed_under_empty: "closed_under S (set [])"
  by (simp add: closed_under_def)

lemma groups_component:
  assumes "square b" "g \<in> set (get_stone_groups b color)"
  shows "\<exists>v\<in>stones_of b color. set g = component_of (stones_of b color) v"
proof -
  from assms(2) have "g \<in> set (components_from (stone_graph b color) (stone_graph b color) [])"
    by (simp add: get_stone_groups_graph connected_components_def)
  from components_from_component[OF subset_refl this]
  show ?thesis by (auto simp: set_stone_graph[OF assms(1)])
qed

lemma groups_distinct_members:
  assumes "g \<in> set (get_stone_groups b color)"
  shows "distinct g"
proof -
  from assms have "g \<in> set (components_from (stone_graph b color) (stone_graph b color) [])"
    by (simp add: get_stone_groups_graph connected_components_def)
  from components_from_component[OF subset_refl this]
  obtain v where "g = plain_bfs (stone_graph b color) [v]" by auto
  then show ?thesis by (simp add: plain_bfs_distinct distinct_stone_graph)
qed

lemma groups_subset:
  assumes "square b" "g \<in> set (get_stone_groups b color)"
  shows "set g \<subseteq> stones_of b color"
  using groups_component[OF assms] component_of_subset by blast

lemma groups_nonempty:
  assumes "square b" "g \<in> set (get_stone_groups b color)"
  shows "g \<noteq> []"
  using groups_component[OF assms] component_of_self by fastforce

lemma groups_cover:
  assumes "square b"
  shows "\<Union> (set ` set (get_stone_groups b color)) = stones_of b color"
proof
  show "\<Union> (set ` set (get_stone_groups b color)) \<subseteq> stones_of b color"
    using groups_subset[OF assms] by blast
next
  have "set (stone_graph b color) \<subseteq>
      set [] \<union> \<Union> (set ` set (components_from (stone_graph b color) (stone_graph b color) []))"
    by (rule components_from_cover)
  then show "stones_of b color \<subseteq> \<Union> (set ` set (get_stone_groups b color))"
    by (simp add: set_stone_graph[OF assms] get_stone_groups_graph connected_components_def)
qed

lemma groups_distinct: "distinct (get_stone_groups b color)"
  unfolding get_stone_groups_graph connected_components_def
  using components_from_disjoint[OF closed_under_empty subset_refl] by blast

lemma groups_disjoint:
  assumes "g \<in> set (get_stone_groups b color)" "h \<in> set (get_stone_groups b color)" "g \<noteq> h"
  shows "set g \<inter> set h = {}"
  using assms unfolding get_stone_groups_graph connected_components_def
  using components_from_disjoint[OF closed_under_empty subset_refl] by blast

lemma groups_maximal:
  assumes "square b" "g \<in> set (get_stone_groups b color)"
    and "p \<in> set g" "q \<in> stones_of b color" "adjacent p q"
  shows "q \<in> set g"
proof -
  from groups_component[OF assms(1,2)] obtain v
    where g: "set g = component_of (stones_of b color) v" by auto
  from assms(3) groups_subset[OF assms(1,2)] have "p \<in> stones_of b color" by auto
  with assms(4,5) have "(p, q) \<in> adj_rel (stones_of b color)" by (simp add: adj_rel_def)
  with assms(3) show ?thesis unfolding g by (auto intro: component_of_closed)
qed

lemma component_of_inner:
  "(v, w) \<in> (adj_rel S)\<^sup>* \<Longrightarrow> (v, w) \<in> (adj_rel (component_of S v))\<^sup>*"
proof (induction rule: rtrancl_induct)
  case base
  show ?case by simp
next
  case (step y z)
  from step.hyps(1) have y: "y \<in> component_of S v" by (simp add: component_of_def)
  from y step.hyps(2) have z: "z \<in> component_of S v" by (rule component_of_closed)
  from step.hyps(2) have "adjacent y z" by (simp add: adj_rel_def)
  with y z have "(y, z) \<in> adj_rel (component_of S v)" by (simp add: adj_rel_def)
  with step.IH show ?case by (rule rtrancl_into_rtrancl)
qed

lemma component_of_connected:
  assumes "p \<in> component_of S v" "q \<in> component_of S v"
  shows "(p, q) \<in> (adj_rel (component_of S v))\<^sup>*"
proof -
  from assms have "(v, p) \<in> (adj_rel S)\<^sup>*" "(v, q) \<in> (adj_rel S)\<^sup>*"
    by (simp_all add: component_of_def)
  then have "(v, p) \<in> (adj_rel (component_of S v))\<^sup>*" "(v, q) \<in> (adj_rel (component_of S v))\<^sup>*"
    by (simp_all add: component_of_inner)
  from adj_rel_rtrancl_sym[OF this(1)] this(2) show ?thesis by (rule rtrancl_trans)
qed

lemma component_of_isolated:
  assumes "\<forall>q\<in>S. \<not> adjacent p q"
  shows "component_of S p = {p}"
proof -
  have "w = p" if "(p, w) \<in> (adj_rel S)\<^sup>*" for w
    using that by (induction rule: rtrancl_induct) (use assms in \<open>auto simp: adj_rel_def\<close>)
  then show ?thesis by (auto simp: component_of_def)
qed

lemma distinct_singleton_list:
  assumes "distinct g" "set g = {p}"
  shows "g = [p]"
proof (cases g)
  case Nil
  with assms(2) show ?thesis by simp
next
  case (Cons x xs)
  with assms have x: "x = p" and xs: "set xs \<subseteq> {p}" "p \<notin> set xs" by auto
  from xs have "xs = []" by (cases xs) auto
  with x Cons show ?thesis by simp
qed

lemma stones_of_in_bounds: "p \<in> stones_of b color \<Longrightarrow> in_bounds b p"
  by (simp add: stones_of_def)

lemma groups_in_bounds:
  assumes "square b"
  shows "\<forall>g\<in>set (get_stone_groups b color). \<forall>p\<in>set g. in_bounds b p"
  using groups_subset[OF assms] stones_of_in_bounds by blast

lemma groups_separated:
  assumes "square b"
    and "g \<in> set (get_stone_groups b color)" "h \<in> set (get_stone_groups b color)" "g \<noteq> h"
    and "p \<in> set g" "q \<in> set h"
  shows "\<not> adjacent p q"
proof
  assume "adjacent p q"
  moreover from assms(1,3,6) have "q \<in> stones_of b color" using groups_subset by blast
  ultimately have "q \<in> set g" using groups_maximal[OF assms(1,2,5)] by simp
  with assms(6) groups_disjoint[OF assms(2,3,4)] show False by auto
qed

lemma component_of_restrict:
  assumes "component_of S v \<subseteq> T" "(v, w) \<in> (adj_rel S)\<^sup>*"
  shows "(v, w) \<in> (adj_rel T)\<^sup>*"
  using assms(2)
proof (induction rule: rtrancl_induct)
  case base
  show ?case by simp
next
  case (step y z)
  from step.hyps(1) have y: "y \<in> component_of S v" by (simp add: component_of_def)
  from y step.hyps(2) have z: "z \<in> component_of S v" by (rule component_of_closed)
  from step.hyps(2) have "adjacent y z" by (simp add: adj_rel_def)
  with y z assms(1) have "(y, z) \<in> adj_rel T" by (auto simp: adj_rel_def)
  with step.IH show ?case by (rule rtrancl_into_rtrancl)
qed

section \<open>The capture sweep\<close>

lemma length_clear_cells [simp]: "length (clear_cells b ps) = length b"
  by (simp add: clear_cells_def)

lemma in_bounds_clear_cells [simp]: "in_bounds (clear_cells b ps) p = in_bounds b p"
  by (simp add: in_bounds_def shape0_def)

lemma square_clear_cells: "square b \<Longrightarrow> square (clear_cells b ps)"
  by (auto simp: square_def clear_cells_def)

lemma cell_clear_cells:
  assumes "square b" "in_bounds b p"
  shows "cell (clear_cells b ps) p = (if p \<in> set ps then 0 else cell b p)"
proof -
  obtain x y where p: "p = (x, y)" by (cases p)
  from assms(2) p have x: "0 \<le> x" "nat x < length b" and y: "0 \<le> y" "nat y < length b"
    by (auto simp: in_bounds_def shape0_def)
  have len: "length (b ! nat x) = length b" using assms(1) x(2) by (rule square_row_length)
  show ?thesis using x y len by (simp add: cell_def clear_cells_def p)
qed

lemma clear_cells_Nil: "square b \<Longrightarrow> clear_cells b [] = b"
  by (rule board_ext) (simp_all add: square_clear_cells cell_clear_cells)

lemma clear_cells_append:
  assumes "square b"
  shows "clear_cells (clear_cells b ps) qs = clear_cells b (ps @ qs)"
proof (rule board_ext)
  fix p assume "in_bounds (clear_cells (clear_cells b ps) qs) p"
  then have "in_bounds b p" by simp
  then show "cell (clear_cells (clear_cells b ps) qs) p = cell (clear_cells b (ps @ qs)) p"
    using assms by (simp add: cell_clear_cells square_clear_cells)
qed (simp_all add: assms square_clear_cells)

lemma setitem_clear:
  assumes "square b" "in_bounds b (i, j)"
  shows "setitem b i j 0 = Inr (clear_cells b [(i, j)])"
proof -
  let ?b' = "b[nat i := (b ! nat i)[nat j := 0]]"
  have "?b' = clear_cells b [(i, j)]"
  proof (rule board_ext)
    show "square ?b'" using assms(1) by (rule square_update)
    show "square (clear_cells b [(i, j)])" using assms(1) by (rule square_clear_cells)
    show "length ?b' = length (clear_cells b [(i, j)])" by simp
  next
    fix p assume "in_bounds ?b' p"
    then have p: "in_bounds b p" by simp
    show "cell ?b' p = cell (clear_cells b [(i, j)]) p"
      by (simp add: cell_update[OF assms p] cell_clear_cells[OF assms(1) p])
  qed
  with setitem_cell[OF assms] show ?thesis by simp
qed

lemma remove_group_clear:
  assumes "square b" "\<forall>p\<in>set g. in_bounds b p"
  shows "remove_group b g n = Inr (clear_cells b g, n + length g)"
  using assms
proof (induction g arbitrary: b n)
  case Nil
  then show ?case by (simp add: clear_cells_Nil)
next
  case (Cons p g)
  obtain i j where p: "p = (i, j)" by (cases p)
  from Cons.prems have ib: "in_bounds b (i, j)" by (simp add: p)
  let ?b' = "clear_cells b [(i, j)]"
  have sq': "square ?b'" using Cons.prems(1) by (rule square_clear_cells)
  have ib': "\<forall>p\<in>set g. in_bounds ?b' p" using Cons.prems(2) by simp
  have "remove_group b (p # g) n = remove_group ?b' g (n + 1)"
    by (simp add: p setitem_clear[OF Cons.prems(1) ib])
  also have "\<dots> = Inr (clear_cells ?b' g, n + 1 + length g)"
    by (rule Cons.IH[OF sq' ib'])
  also have "clear_cells ?b' g = clear_cells b (p # g)"
    using clear_cells_append[OF Cons.prems(1), of "[(i, j)]" g] by (simp add: p)
  finally show ?case by simp
qed

lemma has_liberty_at_clear:
  assumes "square b" "\<forall>q\<in>set D. \<not> adjacent p q"
  shows "has_liberty_at (clear_cells b D) p = has_liberty_at b p"
proof -
  have "cell (clear_cells b D) q = cell b q" if "adjacent p q" "in_bounds b q" for q
    using that assms by (auto simp: cell_clear_cells)
  then have "(\<exists>q. adjacent p q \<and> in_bounds b q \<and> cell (clear_cells b D) q = 0)
      \<longleftrightarrow> (\<exists>q. adjacent p q \<and> in_bounds b q \<and> cell b q = 0)"
    by metis
  then show ?thesis
    unfolding has_liberty_at_cell[OF assms(1)] has_liberty_at_cell[OF square_clear_cells[OF assms(1)]]
    by simp
qed

lemma has_no_liberties_clear:
  assumes "square b" "\<forall>p\<in>set g. in_bounds b p" "\<forall>p\<in>set g. \<forall>q\<in>set D. \<not> adjacent p q"
  shows "has_no_liberties (clear_cells b D) g = has_no_liberties b g"
proof -
  have "has_no_liberties (clear_cells b D) g = Inr (\<forall>p\<in>set g. \<not> has_liberty_at (clear_cells b D) p)"
    using assms(2) by (intro has_no_liberties_cell square_clear_cells[OF assms(1)]) simp
  also have "\<dots> = Inr (\<forall>p\<in>set g. \<not> has_liberty_at b p)"
    using assms(3) by (simp add: has_liberty_at_clear[OF assms(1)])
  also have "\<dots> = has_no_liberties b g"
    using has_no_liberties_cell[OF assms(1,2)] by simp
  finally show ?thesis .
qed

lemma capture_loop_clear:
  assumes "square b"
    and "\<forall>g\<in>set grps. \<forall>p\<in>set g. in_bounds b p"
    and "\<forall>g\<in>set grps. \<forall>p\<in>set g. \<forall>q\<in>set D. \<not> adjacent p q"
    and "distinct grps"
    and "\<forall>g\<in>set grps. \<forall>h\<in>set grps. g \<noteq> h \<longrightarrow> (\<forall>p\<in>set g. \<forall>q\<in>set h. \<not> adjacent p q)"
  shows "capture_loop (clear_cells b D) grps n
         = Inr (clear_cells b (D @ dead b grps), n + length (dead b grps))"
  using assms(2-)
proof (induction grps arbitrary: D n)
  case Nil
  show ?case by (simp add: dead_def)
next
  case (Cons g grps)
  from Cons.prems(1) have ibg: "\<forall>p\<in>set g. in_bounds b p"
    and ibs: "\<forall>g\<in>set grps. \<forall>p\<in>set g. in_bounds b p" by simp_all
  from Cons.prems(2) have sepg: "\<forall>p\<in>set g. \<forall>q\<in>set D. \<not> adjacent p q"
    and seps: "\<forall>g\<in>set grps. \<forall>p\<in>set g. \<forall>q\<in>set D. \<not> adjacent p q" by simp_all
  from Cons.prems(3) have notin: "g \<notin> set grps" and dist: "distinct grps" by simp_all
  from Cons.prems(4) have pw:
    "\<forall>g\<in>set grps. \<forall>h\<in>set grps. g \<noteq> h \<longrightarrow> (\<forall>p\<in>set g. \<forall>q\<in>set h. \<not> adjacent p q)"
    by simp
  have gsep: "\<forall>h\<in>set grps. \<forall>p\<in>set h. \<forall>q\<in>set g. \<not> adjacent p q"
  proof (intro ballI)
    fix h p q assume h: "h \<in> set grps" and p: "p \<in> set h" and q: "q \<in> set g"
    from h notin have "h \<noteq> g" by auto
    with Cons.prems(4) h p q show "\<not> adjacent p q" by auto
  qed
  have lib: "has_no_liberties (clear_cells b D) g = has_no_liberties b g"
    by (rule has_no_liberties_clear[OF assms(1) ibg sepg])
  obtain r where r: "has_no_liberties b g = Inr r"
    using has_no_liberties_cell[OF assms(1) ibg] by simp
  show ?case
  proof (cases r)
    case True
    have rem: "remove_group (clear_cells b D) g n = Inr (clear_cells b (D @ g), n + length g)"
      using remove_group_clear[of "clear_cells b D" g n] ibg
      by (simp add: square_clear_cells[OF assms(1)] clear_cells_append[OF assms(1)])
    have seps': "\<forall>h\<in>set grps. \<forall>p\<in>set h. \<forall>q\<in>set (D @ g). \<not> adjacent p q"
      using seps gsep by auto
    have "capture_loop (clear_cells b D) (g # grps) n
        = capture_loop (clear_cells b (D @ g)) grps (n + length g)"
      using lib r True rem by simp
    also have "\<dots> = Inr (clear_cells b ((D @ g) @ dead b grps), n + length g + length (dead b grps))"
      by (rule Cons.IH[OF ibs seps' dist pw])
    finally show ?thesis using r True by (simp add: dead_def)
  next
    case False
    have "capture_loop (clear_cells b D) (g # grps) n = capture_loop (clear_cells b D) grps n"
      using lib r False by simp
    also have "\<dots> = Inr (clear_cells b (D @ dead b grps), n + length (dead b grps))"
      by (rule Cons.IH[OF ibs seps dist pw])
    finally show ?thesis using r False by (simp add: dead_def)
  qed
qed

lemma capture_loop_groups:
  assumes "square b"
  shows "capture_loop b (get_stone_groups b color) 0
         = Inr (clear_cells b (dead b (get_stone_groups b color)),
                length (dead b (get_stone_groups b color)))"
proof -
  have "capture_loop (clear_cells b []) (get_stone_groups b color) 0
      = Inr (clear_cells b ([] @ dead b (get_stone_groups b color)),
             0 + length (dead b (get_stone_groups b color)))"
  proof (rule capture_loop_clear[OF assms groups_in_bounds[OF assms]])
    show "\<forall>g\<in>set (get_stone_groups b color). \<forall>p\<in>set g. \<forall>q\<in>set []. \<not> adjacent p q" by simp
    show "distinct (get_stone_groups b color)" by (rule groups_distinct)
    show "\<forall>g\<in>set (get_stone_groups b color). \<forall>h\<in>set (get_stone_groups b color).
        g \<noteq> h \<longrightarrow> (\<forall>p\<in>set g. \<forall>q\<in>set h. \<not> adjacent p q)"
      using groups_separated[OF assms] by blast
  qed
  then show ?thesis by (simp add: clear_cells_Nil[OF assms])
qed

lemma capture_simultaneous_dead:
  "capture_simultaneous b color
    = (clear_cells b (dead b (get_stone_groups b color)), length (dead b (get_stone_groups b color)))"
  by (simp add: capture_simultaneous_def dead_def Let_def)

lemma capture_stones_clear:
  assumes "square (board g)"
  shows "capture_stones g color
    = Inr (g\<lparr>board := clear_cells (board g) (dead (board g) (get_stone_groups (board g) color))\<rparr>,
           length (dead (board g) (get_stone_groups (board g) color)))"
  by (simp add: capture_stones_def capture_loop_groups[OF assms])

lemma set_dead:
  "set (dead b grps) = \<Union> (set ` {g \<in> set grps. has_no_liberties b g = Inr True})"
  by (auto simp: dead_def)

lemma dead_subset_stones:
  assumes "square b"
  shows "set (dead b (get_stone_groups b color)) \<subseteq> stones_of b color"
  using groups_subset[OF assms] by (auto simp: set_dead)

lemma getitem_clear_cells:
  assumes "square b" "in_bounds b p"
  shows "getitem (clear_cells b ps) (fst p) (snd p)
         = (if p \<in> set ps then Inr 0 else getitem b (fst p) (snd p))"
proof -
  from assms(2) have "in_bounds (clear_cells b ps) (fst p, snd p)" "in_bounds b (fst p, snd p)"
    by simp_all
  from getitem_cell[OF square_clear_cells[OF assms(1)] this(1)] getitem_cell[OF assms(1) this(2)]
  show ?thesis by (simp add: cell_clear_cells[OF assms])
qed

lemma stones_of_getitem:
  "p \<in> stones_of b color \<Longrightarrow> getitem b (fst p) (snd p) = Inr (color_code color)"
  by (simp add: stones_of_def)

lemma capture_stones_cells:
  assumes "square (board g)"
  shows "\<exists>g' n. capture_stones g color = Inr (g', n) \<and> g' = g\<lparr>board := board g'\<rparr> \<and>
           length (board g') = length (board g) \<and> square (board g') \<and>
           (\<forall>p. in_bounds (board g) p \<longrightarrow>
              getitem (board g') (fst p) (snd p) = getitem (board g) (fst p) (snd p) \<or>
              getitem (board g) (fst p) (snd p) = Inr (color_code color)
                \<and> getitem (board g') (fst p) (snd p) = Inr 0)"
proof -
  let ?D = "dead (board g) (get_stone_groups (board g) color)"
  let ?g' = "g\<lparr>board := clear_cells (board g) ?D\<rparr>"
  have run: "capture_stones g color = Inr (?g', length ?D)"
    by (rule capture_stones_clear[OF assms])
  have only_board: "?g' = g\<lparr>board := board ?g'\<rparr>" by simp
  have len: "length (board ?g') = length (board g)" by simp
  have sq: "square (board ?g')" by (simp add: square_clear_cells[OF assms])
  have cells: "\<forall>p. in_bounds (board g) p \<longrightarrow>
      getitem (board ?g') (fst p) (snd p) = getitem (board g) (fst p) (snd p) \<or>
      getitem (board g) (fst p) (snd p) = Inr (color_code color)
        \<and> getitem (board ?g') (fst p) (snd p) = Inr 0"
  proof (intro allI impI)
    fix p assume ib: "in_bounds (board g) p"
    show "getitem (board ?g') (fst p) (snd p) = getitem (board g) (fst p) (snd p) \<or>
      getitem (board g) (fst p) (snd p) = Inr (color_code color)
        \<and> getitem (board ?g') (fst p) (snd p) = Inr 0"
    proof (cases "p \<in> set ?D")
      case True
      with dead_subset_stones[OF assms, of color] have "p \<in> stones_of (board g) color" by auto
      then have "getitem (board g) (fst p) (snd p) = Inr (color_code color)"
        by (rule stones_of_getitem)
      with True show ?thesis by (simp add: getitem_clear_cells[OF assms ib])
    next
      case False
      then show ?thesis by (simp add: getitem_clear_cells[OF assms ib])
    qed
  qed
  show ?thesis
    by (rule exI[of _ ?g'], rule exI[of _ "length ?D"]) (intro conjI run only_board len sq cells)
qed

lemma handle_captures_cells:
  assumes "square (board g)"
  shows "\<exists>g'. handle_captures g = Inr g' \<and>
           length (board g') = length (board g) \<and> square (board g') \<and>
           black_turn g' = black_turn g \<and>
           (\<forall>p. in_bounds (board g) p \<longrightarrow>
              getitem (board g') (fst p) (snd p) = getitem (board g) (fst p) (snd p) \<or>
              getitem (board g) (fst p) (snd p)
                  = Inr (color_code (if black_turn g then ''white'' else ''black''))
                \<and> getitem (board g') (fst p) (snd p) = Inr 0)"
proof -
  let ?other = "if black_turn g then ''white'' else ''black''"
  from capture_stones_cells[OF assms, of ?other] obtain g' n where
    run: "capture_stones g ?other = Inr (g', n)" and ob: "g' = g\<lparr>board := board g'\<rparr>"
    and len: "length (board g') = length (board g)" and sq: "square (board g')"
    and cells: "\<forall>p. in_bounds (board g) p \<longrightarrow>
              getitem (board g') (fst p) (snd p) = getitem (board g) (fst p) (snd p) \<or>
              getitem (board g) (fst p) (snd p) = Inr (color_code ?other)
                \<and> getitem (board g') (fst p) (snd p) = Inr 0"
    by blast
  let ?self = "if black_turn g then ''black'' else ''white''"
  let ?g'' = "g'\<lparr>prisoners := (prisoners g')(?self := prisoners g' ?self + n)\<rparr>"
  have "handle_captures g = Inr ?g''"
    using run by (simp add: handle_captures_def Let_def)
  moreover have "black_turn g' = black_turn g" by (subst ob) simp
  ultimately show ?thesis using len sq cells
    by (intro exI[of _ ?g'']) simp
qed

lemma color_code_pos: "color_code color \<noteq> 0"
  by (simp add: color_code_def)

lemma stones_of_clear:
  assumes "square b"
  shows "stones_of (clear_cells b D) color = stones_of b color - set D"
proof -
  have "in_bounds b p \<and> cell (clear_cells b D) p = color_code color
      \<longleftrightarrow> (in_bounds b p \<and> cell b p = color_code color) \<and> p \<notin> set D" for p
    using color_code_pos[of color] by (cases "p \<in> set D") (auto simp: cell_clear_cells[OF assms])
  then show ?thesis
    unfolding stones_of_cell[OF assms] stones_of_cell[OF square_clear_cells[OF assms]]
    by auto
qed

lemma has_liberty_at_clear_mono:
  assumes "square b" "has_liberty_at b p"
  shows "has_liberty_at (clear_cells b D) p"
proof -
  from assms obtain q where q: "adjacent p q" "in_bounds b q" "cell b q = 0"
    unfolding has_liberty_at_cell[OF assms(1)] by blast
  then have "cell (clear_cells b D) q = 0" by (simp add: cell_clear_cells[OF assms(1)])
  with q(1,2) have "\<exists>q. adjacent p q \<and> in_bounds (clear_cells b D) q \<and> cell (clear_cells b D) q = 0"
    by (intro exI[of _ q]) simp
  then show ?thesis
    unfolding has_liberty_at_cell[OF square_clear_cells[OF assms(1)]] .
qed

lemma no_dead_group_after_capture:
  assumes sq: "square b"
    and g': "g' \<in> set (get_stone_groups (clear_cells b (dead b (get_stone_groups b color))) color)"
  shows "has_no_liberties (clear_cells b (dead b (get_stone_groups b color))) g' = Inr False"
proof -
  let ?grps = "get_stone_groups b color"
  let ?D = "dead b ?grps"
  let ?b' = "clear_cells b ?D"
  let ?S = "stones_of b color"
  let ?S' = "stones_of ?b' color"
  have sq': "square ?b'" by (rule square_clear_cells[OF sq])
  have S': "?S' = ?S - set ?D" by (rule stones_of_clear[OF sq])
  from groups_component[OF sq' g'] obtain v
    where v: "v \<in> ?S'" and gv': "set g' = component_of ?S' v" by blast
  from v S' have vS: "v \<in> ?S" and vD: "v \<notin> set ?D" by auto
  from vS groups_cover[OF sq, of color] obtain g
    where g: "g \<in> set ?grps" and vg: "v \<in> set g" by auto
  from groups_component[OF sq g] obtain u where "set g = component_of ?S u" by blast
  with vg have gv: "set g = component_of ?S v" by (simp add: component_of_eq)
  have alive: "has_no_liberties b g \<noteq> Inr True"
  proof
    assume "has_no_liberties b g = Inr True"
    with g vg have "v \<in> set ?D" by (auto simp: set_dead)
    with vD show False by simp
  qed
  have ibg: "\<forall>p\<in>set g. in_bounds b p" using groups_in_bounds[OF sq] g by blast
  from alive has_no_liberties_cell[OF sq ibg] obtain p
    where p: "p \<in> set g" "has_liberty_at b p" by auto
  have gD: "set g \<inter> set ?D = {}"
  proof (rule ccontr)
    assume "set g \<inter> set ?D \<noteq> {}"
    then obtain q h where q: "q \<in> set g" "q \<in> set h" and h: "h \<in> set ?grps"
      and hd: "has_no_liberties b h = Inr True"
      by (auto simp: set_dead)
    from hd alive have "g \<noteq> h" by auto
    from groups_disjoint[OF g h this] q show False by auto
  qed
  have "set g \<subseteq> ?S" by (rule groups_subset[OF sq g])
  with gD S' have sub: "component_of ?S v \<subseteq> ?S'" unfolding gv by auto
  from p(1) have "(v, p) \<in> (adj_rel ?S)\<^sup>*" unfolding gv by (simp add: component_of_def)
  with sub have "(v, p) \<in> (adj_rel ?S')\<^sup>*" by (rule component_of_restrict)
  then have pg': "p \<in> set g'" unfolding gv' by (simp add: component_of_def)
  have lib': "has_liberty_at ?b' p" by (rule has_liberty_at_clear_mono[OF sq p(2)])
  have ibg': "\<forall>p\<in>set g'. in_bounds ?b' p" using groups_in_bounds[OF sq'] g' by blast
  from has_no_liberties_cell[OF sq' ibg'] pg' lib' show ?thesis by auto
qed

text \<open>
  The library yields each group as a Python set and fixes no order among the groups. The
  sweep does not depend on either order: any list of the same groups, each given by any
  list of its members without repetition, leads to the same board and the same count.
\<close>

lemma has_no_liberties_set_cong:
  assumes "square b" "\<forall>p\<in>set g. in_bounds b p" "set g' = set g"
  shows "has_no_liberties b g' = has_no_liberties b g"
proof -
  from assms(2,3) have "\<forall>p\<in>set g'. in_bounds b p" by simp
  from has_no_liberties_cell[OF assms(1) this] has_no_liberties_cell[OF assms(1,2)] assms(3)
  show ?thesis by simp
qed

lemma clear_cells_set_cong: "set ps = set qs \<Longrightarrow> clear_cells b ps = clear_cells b qs"
  by (simp add: clear_cells_def)

lemma distinct_dead:
  assumes "distinct grps" "\<forall>g\<in>set grps. distinct g"
    and "\<forall>g\<in>set grps. \<forall>h\<in>set grps. g \<noteq> h \<longrightarrow> set g \<inter> set h = {}"
  shows "distinct (dead b grps)"
  unfolding dead_def
proof (rule distinct_concat)
  show "distinct (filter (\<lambda>g. has_no_liberties b g = Inr True) grps)"
    using assms(1) by simp
next
  fix ys assume "ys \<in> set (filter (\<lambda>g. has_no_liberties b g = Inr True) grps)"
  with assms(2) show "distinct ys" by simp
next
  fix ys zs
  assume "ys \<in> set (filter (\<lambda>g. has_no_liberties b g = Inr True) grps)"
    "zs \<in> set (filter (\<lambda>g. has_no_liberties b g = Inr True) grps)" "ys \<noteq> zs"
  with assms(3) show "set ys \<inter> set zs = {}" by simp
qed

lemma capture_loop_order_irrelevant:
  assumes sq: "square b"
    and sets: "set ` set grps' = set ` set (get_stone_groups b color)"
    and d1: "distinct (map set grps')"
    and d2: "\<forall>g\<in>set grps'. distinct g"
  shows "capture_loop b grps' 0 = capture_loop b (get_stone_groups b color) 0"
proof -
  let ?grps = "get_stone_groups b color"
  have rep: "\<exists>g\<in>set ?grps. set g' = set g" if "g' \<in> set grps'" for g'
    using that sets by (metis (no_types, lifting) image_iff)
  have rep': "\<exists>g'\<in>set grps'. set g' = set g" if "g \<in> set ?grps" for g
    using that sets by (metis (no_types, lifting) image_iff)
  have inj: "set g' \<noteq> set h'" if "g' \<in> set grps'" "h' \<in> set grps'" "g' \<noteq> h'" for g' h'
    using d1 that by (auto simp: distinct_map inj_on_def)
  have dist': "distinct grps'" using d1 by (simp add: distinct_map)
  have ib': "\<forall>g\<in>set grps'. \<forall>p\<in>set g. in_bounds b p"
    using rep groups_in_bounds[OF sq, of color] by blast
  have sep': "\<forall>g\<in>set grps'. \<forall>h\<in>set grps'. g \<noteq> h \<longrightarrow> (\<forall>p\<in>set g. \<forall>q\<in>set h. \<not> adjacent p q)"
  proof (intro ballI impI)
    fix g' h' p q
    assume a: "g' \<in> set grps'" "h' \<in> set grps'" "g' \<noteq> h'" "p \<in> set g'" "q \<in> set h'"
    from rep[OF a(1)] rep[OF a(2)] obtain g h where
      gh: "g \<in> set ?grps" "set g' = set g" "h \<in> set ?grps" "set h' = set h" by blast
    from inj[OF a(1,2,3)] gh have "g \<noteq> h" by auto
    from groups_separated[OF sq gh(1,3) this] a(4,5) gh(2,4) show "\<not> adjacent p q" by simp
  qed
  have dis': "\<forall>g\<in>set grps'. \<forall>h\<in>set grps'. g \<noteq> h \<longrightarrow> set g \<inter> set h = {}"
  proof (intro ballI impI)
    fix g' h'
    assume a: "g' \<in> set grps'" "h' \<in> set grps'" "g' \<noteq> h'"
    from rep[OF a(1)] rep[OF a(2)] obtain g h where
      gh: "g \<in> set ?grps" "set g' = set g" "h \<in> set ?grps" "set h' = set h" by blast
    from inj[OF a(1,2,3)] gh have "g \<noteq> h" by auto
    from groups_disjoint[OF gh(1,3) this] gh(2,4) show "set g' \<inter> set h' = {}" by simp
  qed
  have "capture_loop (clear_cells b []) grps' 0
      = Inr (clear_cells b ([] @ dead b grps'), 0 + length (dead b grps'))"
    by (rule capture_loop_clear[OF sq ib' _ dist' sep']) simp
  then have run': "capture_loop b grps' 0 = Inr (clear_cells b (dead b grps'), length (dead b grps'))"
    by (simp add: clear_cells_Nil[OF sq])
  have same_set: "set (dead b grps') = set (dead b ?grps)"
  proof (intro set_eqI iffI)
    fix x assume "x \<in> set (dead b grps')"
    then obtain g' where g': "g' \<in> set grps'" "has_no_liberties b g' = Inr True" "x \<in> set g'"
      by (auto simp: set_dead)
    from rep[OF g'(1)] obtain g where g: "g \<in> set ?grps" "set g' = set g" by blast
    from g(1) groups_in_bounds[OF sq, of color] have "\<forall>p\<in>set g. in_bounds b p" by blast
    from has_no_liberties_set_cong[OF sq this g(2)] g'(2) have "has_no_liberties b g = Inr True"
      by simp
    with g g'(3) show "x \<in> set (dead b ?grps)" by (auto simp: set_dead)
  next
    fix x assume "x \<in> set (dead b ?grps)"
    then obtain g where g: "g \<in> set ?grps" "has_no_liberties b g = Inr True" "x \<in> set g"
      by (auto simp: set_dead)
    from rep'[OF g(1)] obtain g' where g': "g' \<in> set grps'" "set g' = set g" by blast
    from g(1) groups_in_bounds[OF sq, of color] have "\<forall>p\<in>set g. in_bounds b p" by blast
    from has_no_liberties_set_cong[OF sq this g'(2)] g(2) have "has_no_liberties b g' = Inr True"
      by simp
    with g' g(3) show "x \<in> set (dead b grps')" by (auto simp: set_dead)
  qed
  have "distinct (dead b grps')" by (rule distinct_dead[OF dist' d2 dis'])
  moreover have "distinct (dead b ?grps)"
    using groups_distinct groups_distinct_members groups_disjoint
    by (intro distinct_dead) blast+
  ultimately have "length (dead b grps') = length (dead b ?grps)"
    using same_set by (metis distinct_card)
  with run' clear_cells_set_cong[OF same_set, of b] capture_loop_groups[OF sq, of color]
  show ?thesis by simp
qed

section \<open>Moves of the game\<close>

lemma setitem_in_bounds:
  assumes "square b" "in_bounds b (col, row)"
  shows "\<exists>b1. setitem b col row v = Inr b1 \<and> square b1 \<and> length b1 = length b \<and>
           getitem b1 col row = Inr v"
proof -
  let ?b1 = "b[nat col := (b ! nat col)[nat row := v]]"
  have sq1: "square ?b1" by (rule square_update[OF assms(1)])
  have ib1: "in_bounds ?b1 (col, row)" using assms(2) by simp
  have "getitem ?b1 col row = Inr v"
    using getitem_cell[OF sq1 ib1] cell_update[OF assms assms(2), of v] by simp
  with setitem_cell[OF assms, of v] sq1 show ?thesis by simp
qed

lemma place_stone_captures:
  assumes "square (board g)" "in_bounds (board g) (col, row)"
  shows "\<exists>b1. setitem (board g) col row (player_code g) = Inr b1 \<and> square b1 \<and>
           length b1 = length (board g) \<and> getitem b1 col row = Inr (player_code g) \<and>
           place_stone g col row = handle_captures (g\<lparr>board := b1\<rparr>)"
proof -
  from setitem_in_bounds[OF assms, of "player_code g"] obtain b1 where
    b1: "setitem (board g) col row (player_code g) = Inr b1" "square b1"
      "length b1 = length (board g)" "getitem b1 col row = Inr (player_code g)"
    by blast
  from b1(1) have "place_stone g col row = handle_captures (g\<lparr>board := b1\<rparr>)"
    by (simp add: place_stone_def player_code_def Let_def)
  with b1 show ?thesis by blast
qed

lemma player_code_not_other: "player_code g \<noteq> color_code (other_color g)"
  by (simp add: player_code_def other_color_def color_code_def)

lemma place_stone_keeps:
  assumes "square (board g)" "in_bounds (board g) (col, row)"
  shows "\<exists>g'. place_stone g col row = Inr g' \<and> square (board g') \<and>
           length (board g') = length (board g) \<and> black_turn g' = black_turn g \<and>
           getitem (board g') col row = Inr (player_code g)"
proof -
  from place_stone_captures[OF assms] obtain b1 where
    b1: "square b1" "length b1 = length (board g)" "getitem b1 col row = Inr (player_code g)"
      "place_stone g col row = handle_captures (g\<lparr>board := b1\<rparr>)"
    by blast
  let ?g1 = "g\<lparr>board := b1\<rparr>"
  have sq1: "square (board ?g1)" using b1(1) by simp
  from handle_captures_cells[OF sq1] obtain g' where
    g': "handle_captures ?g1 = Inr g'" "length (board g') = length (board ?g1)"
      "square (board g')" "black_turn g' = black_turn ?g1"
    and cells: "\<forall>p. in_bounds (board ?g1) p \<longrightarrow>
              getitem (board g') (fst p) (snd p) = getitem (board ?g1) (fst p) (snd p) \<or>
              getitem (board ?g1) (fst p) (snd p)
                  = Inr (color_code (if black_turn ?g1 then ''white'' else ''black''))
                \<and> getitem (board g') (fst p) (snd p) = Inr 0"
    by blast
  have ib1: "in_bounds (board ?g1) (col, row)"
    using assms(2) b1(2) by (simp add: in_bounds_def shape0_def)
  from cells ib1 have "getitem (board g') (fst (col, row)) (snd (col, row))
        = getitem (board ?g1) (fst (col, row)) (snd (col, row)) \<or>
      getitem (board ?g1) (fst (col, row)) (snd (col, row))
        = Inr (color_code (if black_turn ?g1 then ''white'' else ''black''))
      \<and> getitem (board g') (fst (col, row)) (snd (col, row)) = Inr 0"
    by blast
  then have "getitem (board g') col row = getitem b1 col row \<or>
      getitem b1 col row = Inr (color_code (other_color g))"
    by (auto simp: other_color_def)
  with b1(3) player_code_not_other[of g] have "getitem (board g') col row = Inr (player_code g)"
    by auto
  with g' b1 show ?thesis by (intro exI[of _ g']) simp
qed

lemma Game_is_valid_move_True:
  assumes "square (board g)" "in_bounds (board g) (col, row)" "getitem (board g) col row = Inr 0"
  shows "Game_is_valid_move g col row = Inr True"
proof -
  from assms(2) have "\<not> (col < 0 \<or> col \<ge> shape0 (board g) \<or> row < 0 \<or> row \<ge> shape0 (board g))"
    by (auto simp: in_bounds_def)
  then show ?thesis using assms(3) by (simp add: Game_is_valid_move_def empty_at_def)
qed

lemma handle_click_valid:
  assumes "square (board g)" "in_bounds (board g) (col, row)" "getitem (board g) col row = Inr 0"
    and "place_stone g col row = Inr g'"
  shows "handle_click g col row queue =
     (case check_winner g' of
        None \<Rightarrow> Inr (Returned (g'\<lparr>black_turn := \<not> black_turn g'\<rparr>) queue)
      | Some winner \<Rightarrow>
          (case show_winner_message queue of
             Inl e \<Rightarrow> Inl e
           | Inr None \<Rightarrow> Inr (Waiting g')
           | Inr (Some queue') \<Rightarrow>
               Inr (Returned (g'\<lparr>black_turn := \<not> black_turn g'\<rparr>) queue')))"
  by (simp add: handle_click_def Game_is_valid_move_True[OF assms(1-3)] assms(4))

lemma winner_events_exit: "winner_events events waiting = Inl e \<Longrightarrow> e = SystemExit"
  by (induction events waiting rule: winner_events.induct) auto

lemma show_winner_message_exit: "show_winner_message queue = Inl e \<Longrightarrow> e = SystemExit"
proof (induction queue)
  case Nil
  then show ?case by simp
next
  case (Cons events queue)
  show ?case
  proof (cases "winner_events events True")
    case (Inl e')
    with Cons.prems winner_events_exit[OF Inl] show ?thesis by simp
  next
    case (Inr w)
    with Cons show ?thesis by (cases w) auto
  qed
qed

lemma handle_click_outcome:
  assumes "square (board g)" "in_bounds (board g) (col, row)" "getitem (board g) col row = Inr 0"
    and "place_stone g col row = Inr g'"
  shows "handle_click g col row queue = Inl SystemExit \<or>
         (\<exists>r. handle_click g col row queue = Inr r \<and> board (run_game r) = board g')"
proof (cases "check_winner g'")
  case None
  then show ?thesis by (simp add: handle_click_valid[OF assms])
next
  case (Some winner)
  show ?thesis
  proof (cases "show_winner_message queue")
    case (Inl e)
    with show_winner_message_exit[OF Inl] Some show ?thesis
      by (simp add: handle_click_valid[OF assms])
  next
    case (Inr left)
    with Some show ?thesis
      by (cases left) (simp_all add: handle_click_valid[OF assms])
  qed
qed

lemma handle_captures_clear:
  assumes "square (board g)"
  shows "\<exists>g'. handle_captures g = Inr g' \<and>
     board g' = clear_cells (board g) (dead (board g) (get_stone_groups (board g) (other_color g)))"
  by (simp add: handle_captures_def Let_def other_color_def capture_stones_clear[OF assms])

text \<open>While the winner message is up, a batch without quit request and Return key is dropped.\<close>

lemma winner_events_dropped:
  "\<forall>ev\<in>set events. ev \<noteq> Quit \<and> ev \<noteq> KeyDown_Return
    \<Longrightarrow> winner_events events waiting = Inr waiting"
  by (induction events waiting rule: winner_events.induct) auto

lemma show_winner_message_dropped:
  "\<forall>ev\<in>set events. ev \<noteq> Quit \<and> ev \<noteq> KeyDown_Return
    \<Longrightarrow> show_winner_message (events # queue) = show_winner_message queue"
  by (simp add: winner_events_dropped)

section \<open>Properties stated by the specification\<close>

text \<open>
  C1: on every square board the capture sweep of \<open>capture_stones\<close>, which tests each
  group of the precomputed list on the board as the earlier removals left it, returns
  the board and the count of the simultaneous capture, in which every group is tested on
  the board as it stood before any removal; in particular two different groups of the
  colour that both have no liberty before the sweep are both empty after it.
\<close>

theorem capture_stones_simultaneous:
  assumes "square (board g)"
  shows "\<exists>g' n. capture_stones g color = Inr (g', n) \<and>
           (board g', n) = capture_simultaneous (board g) color \<and>
           g' = g\<lparr>board := board g'\<rparr> \<and>
           (\<forall>g1\<in>set (get_stone_groups (board g) color).
            \<forall>g2\<in>set (get_stone_groups (board g) color).
              g1 \<noteq> g2 \<and> has_no_liberties (board g) g1 = Inr True
                \<and> has_no_liberties (board g) g2 = Inr True
              \<longrightarrow> (\<forall>p\<in>set g1 \<union> set g2. getitem (board g') (fst p) (snd p) = Inr 0))"
proof -
  let ?grps = "get_stone_groups (board g) color"
  let ?b' = "clear_cells (board g) (dead (board g) ?grps)"
  have sq': "square ?b'" by (rule square_clear_cells[OF assms])
  have cleared: "getitem ?b' (fst p) (snd p) = Inr 0"
    if "g1 \<in> set ?grps" "has_no_liberties (board g) g1 = Inr True" "p \<in> set g1" for g1 p
  proof -
    from that have d: "p \<in> set (dead (board g) ?grps)" by (auto simp: set_dead)
    from that(1,3) groups_in_bounds[OF assms] have ib: "in_bounds (board g) p" by blast
    then have "in_bounds ?b' (fst p, snd p)" by simp
    from getitem_cell[OF sq' this] show ?thesis
      using d by (simp add: cell_clear_cells[OF assms ib])
  qed
  let ?g' = "g\<lparr>board := ?b'\<rparr>"
  let ?n = "length (dead (board g) ?grps)"
  have run: "capture_stones g color = Inr (?g', ?n)"
    by (rule capture_stones_clear[OF assms])
  have same: "(board ?g', ?n) = capture_simultaneous (board g) color"
    by (simp add: capture_simultaneous_dead)
  have only_board: "?g' = g\<lparr>board := board ?g'\<rparr>" by simp
  have both: "\<forall>g1\<in>set ?grps. \<forall>g2\<in>set ?grps.
        g1 \<noteq> g2 \<and> has_no_liberties (board g) g1 = Inr True
          \<and> has_no_liberties (board g) g2 = Inr True
        \<longrightarrow> (\<forall>p\<in>set g1 \<union> set g2. getitem (board ?g') (fst p) (snd p) = Inr 0)"
    using cleared by auto
  show ?thesis
    by (rule exI[of _ ?g'], rule exI[of _ ?n]) (intro conjI run same only_board both)
qed

theorem capture_stones_simultaneous_witness:
  "square (board ((Game_init 3)\<lparr>board := [[2, 1, 0], [1, 0, 1], [0, 1, 2]]\<rparr>)) \<and>
   get_stone_groups [[2, 1, 0], [1, 0, 1], [0, 1, 2]] ''white'' = [[(0, 0)], [(2, 2)]] \<and>
   capture_stones ((Game_init 3)\<lparr>board := [[2, 1, 0], [1, 0, 1], [0, 1, 2]]\<rparr>) ''white''
     = Inr ((Game_init 3)\<lparr>board := [[0, 1, 0], [1, 0, 1], [0, 1, 0]]\<rparr>, 2) \<and>
   capture_simultaneous [[2, 1, 0], [1, 0, 1], [0, 1, 2]] ''white''
     = ([[0, 1, 0], [1, 0, 1], [0, 1, 0]], 2)"
proof -
  let ?g = "(Game_init 3)\<lparr>board := [[2, 1, 0], [1, 0, 1], [0, 1, 2]]\<rparr>"
  have sq: "square (board ?g)" by (simp add: square_def)
  have grps: "get_stone_groups [[2, 1, 0], [1, 0, 1], [0, 1, 2]] ''white'' = [[(0, 0)], [(2, 2)]]"
    by code_simp
  have loop: "capture_loop [[2, 1, 0], [1, 0, 1], [0, 1, 2]]
        (get_stone_groups [[2, 1, 0], [1, 0, 1], [0, 1, 2]] ''white'') 0
      = Inr ([[0, 1, 0], [1, 0, 1], [0, 1, 0]], 2)"
    by code_simp
  have run: "capture_stones ?g ''white''
      = Inr ((Game_init 3)\<lparr>board := [[0, 1, 0], [1, 0, 1], [0, 1, 0]]\<rparr>, 2)"
    by (simp add: capture_stones_def loop del: One_nat_def)
  from capture_stones_simultaneous [OF sq, of "''white''"] obtain g' n where
    "capture_stones ?g ''white'' = Inr (g', n)"
    "(board g', n) = capture_simultaneous (board ?g) ''white''"
    by blast
  with run have "capture_simultaneous [[2, 1, 0], [1, 0, 1], [0, 1, 2]] ''white''
      = ([[0, 1, 0], [1, 0, 1], [0, 1, 0]], 2)"
    by auto
  with sq grps run show ?thesis by blast
qed

text \<open>
  C2, as the code has it: a completed move sweeps the groups of the opponent only. The
  board reached from the empty 3 by 3 board by Black (0,1), White (2,2), Black (1,0),
  White (0,0) keeps the white stone at (0,0), a group with no liberty.
\<close>

theorem zero_liberty_group_remains_counterexample:
  "map_sum id (\<lambda>r. board (run_game r))
     (main_loop (Game_init 3)
        [[MouseButtonUp 0 1], [MouseButtonUp 2 2], [MouseButtonUp 1 0], [MouseButtonUp 0 0]])
     = Inr [[2, 1, 0], [1, 0, 0], [0, 0, 2]] \<and>
   get_stone_groups [[2, 1, 0], [1, 0, 0], [0, 0, 2]] ''white'' = [[(0, 0)], [(2, 2)]] \<and>
   has_no_liberties [[2, 1, 0], [1, 0, 0], [0, 0, 2]] [(0, 0)] = Inr True"
  by code_simp

text \<open>
  C2 (amended): after a valid move, placement and capture pass, every group of the
  opponent's colour on the resulting board has at least one liberty, for \<open>place_stone\<close>
  and for the whole \<open>handle_click\<close>. Groups of the mover's colour are not examined by
  the pass.
\<close>

theorem handle_click_no_dead_opponent_group:
  assumes "square (board g)" "in_bounds (board g) (col, row)" "getitem (board g) col row = Inr 0"
  shows "(\<exists>g'. place_stone g col row = Inr g' \<and>
           (\<forall>grp\<in>set (get_stone_groups (board g') (if black_turn g then ''white'' else ''black'')).
               has_no_liberties (board g') grp = Inr False)) \<and>
         (\<forall>queue. handle_click g col row queue = Inl SystemExit \<or>
           (\<exists>r. handle_click g col row queue = Inr r \<and>
             (\<forall>grp\<in>set (get_stone_groups (board (run_game r))
                           (if black_turn g then ''white'' else ''black'')).
                 has_no_liberties (board (run_game r)) grp = Inr False)))"
proof -
  from place_stone_captures[OF assms(1,2)] obtain b1 where
    b1: "square b1" "place_stone g col row = handle_captures (g\<lparr>board := b1\<rparr>)"
    by blast
  let ?g1 = "g\<lparr>board := b1\<rparr>"
  let ?other = "if black_turn g then ''white'' else ''black''"
  have sq1: "square (board ?g1)" using b1(1) by simp
  from handle_captures_clear[OF sq1] obtain g' where
    g': "handle_captures ?g1 = Inr g'"
      "board g' = clear_cells b1 (dead b1 (get_stone_groups b1 ?other))"
    by (auto simp: other_color_def)
  from b1(2) g'(1) have place: "place_stone g col row = Inr g'" by simp
  have nd: "\<forall>grp\<in>set (get_stone_groups (board g') ?other). has_no_liberties (board g') grp = Inr False"
    unfolding g'(2) using no_dead_group_after_capture[OF b1(1)] by blast
  have "handle_click g col row queue = Inl SystemExit \<or>
      (\<exists>r. handle_click g col row queue = Inr r \<and>
        (\<forall>grp\<in>set (get_stone_groups (board (run_game r)) ?other).
            has_no_liberties (board (run_game r)) grp = Inr False))" for queue
    using handle_click_outcome[OF assms place, of queue] nd by auto
  with place nd show ?thesis by blast
qed

theorem handle_click_no_dead_opponent_group_witness:
  "square (board ((Game_init 3)\<lparr>board := [[2, 1, 0], [1, 0, 2], [0, 0, 0]]\<rparr>)) \<and>
   in_bounds (board ((Game_init 3)\<lparr>board := [[2, 1, 0], [1, 0, 2], [0, 0, 0]]\<rparr>)) (2, 2) \<and>
   getitem (board ((Game_init 3)\<lparr>board := [[2, 1, 0], [1, 0, 2], [0, 0, 0]]\<rparr>)) 2 2 = Inr 0 \<and>
   map_sum id board (place_stone ((Game_init 3)\<lparr>board := [[2, 1, 0], [1, 0, 2], [0, 0, 0]]\<rparr>) 2 2)
     = Inr [[0, 1, 0], [1, 0, 2], [0, 0, 1]] \<and>
   list_all (\<lambda>grp. has_no_liberties [[0, 1, 0], [1, 0, 2], [0, 0, 1]] grp = Inr False)
     (get_stone_groups [[0, 1, 0], [1, 0, 2], [0, 0, 1]] ''white'')"
proof -
  let ?g = "(Game_init 3)\<lparr>board := [[2, 1, 0], [1, 0, 2], [0, 0, 0]]\<rparr>"
  have sq: "square (board ?g)" by (simp add: square_def)
  have ib: "in_bounds (board ?g) (2, 2)" by (simp add: in_bounds_def shape0_def)
  have em: "getitem (board ?g) 2 2 = Inr 0" by (simp add: getitem_def norm_index_def)
  have turn: "black_turn ?g" by (simp add: Game_init_def)
  have ev: "map_sum id board (place_stone ?g 2 2) = Inr [[0, 1, 0], [1, 0, 2], [0, 0, 1]]"
    by code_simp
  from handle_click_no_dead_opponent_group [OF sq ib em] obtain g' where
    run: "place_stone ?g 2 2 = Inr g'"
    and nd: "\<forall>grp\<in>set (get_stone_groups (board g') (if black_turn ?g then ''white'' else ''black'')).
               has_no_liberties (board g') grp = Inr False"
    by blast
  from run ev have "board g' = [[0, 1, 0], [1, 0, 2], [0, 0, 1]]" by simp
  with nd turn have "list_all (\<lambda>grp. has_no_liberties [[0, 1, 0], [1, 0, 2], [0, 0, 1]] grp = Inr False)
     (get_stone_groups [[0, 1, 0], [1, 0, 2], [0, 0, 1]] ''white'')"
    by (simp add: list_all_iff)
  with sq ib em ev show ?thesis by blast
qed

text \<open>
  C3: the winner message holds the game only until the Return key. On the 3 by 3 board,
  after Black (0,1), White (0,0), Black (1,0) the white stone is captured and the
  message is up: a click and the key p that arrive then are dropped, a quit request ends
  the program. After the Return key the turn is toggled and play goes on: a pass toggles
  the turn again, and a click at (2,2) places a white stone, after which the message is
  up once more.
\<close>

theorem play_resumes_after_winner:
  "map_sum id (\<lambda>r. (is_waiting r, board (run_game r), black_turn (run_game r), check_winner (run_game r)))
     (main_loop (Game_init 3) [[MouseButtonUp 0 1], [MouseButtonUp 0 0], [MouseButtonUp 1 0]])
     = Inr (True, [[0, 1, 0], [1, 0, 0], [0, 0, 0]], True, Some ''Black'') \<and>
   map_sum id (\<lambda>r. (is_waiting r, board (run_game r), black_turn (run_game r), check_winner (run_game r)))
     (main_loop (Game_init 3)
        [[MouseButtonUp 0 1], [MouseButtonUp 0 0], [MouseButtonUp 1 0],
         [MouseButtonUp 2 2, KeyUp_p]])
     = Inr (True, [[0, 1, 0], [1, 0, 0], [0, 0, 0]], True, Some ''Black'') \<and>
   map_sum id (\<lambda>r. (is_waiting r, board (run_game r), black_turn (run_game r), check_winner (run_game r)))
     (main_loop (Game_init 3)
        [[MouseButtonUp 0 1], [MouseButtonUp 0 0], [MouseButtonUp 1 0], [KeyDown_Return]])
     = Inr (False, [[0, 1, 0], [1, 0, 0], [0, 0, 0]], False, Some ''Black'') \<and>
   map_sum id (\<lambda>r. (is_waiting r, board (run_game r), black_turn (run_game r), check_winner (run_game r)))
     (main_loop (Game_init 3)
        [[MouseButtonUp 0 1], [MouseButtonUp 0 0], [MouseButtonUp 1 0], [KeyDown_Return],
         [KeyUp_p]])
     = Inr (False, [[0, 1, 0], [1, 0, 0], [0, 0, 0]], True, Some ''Black'') \<and>
   map_sum id (\<lambda>r. (is_waiting r, board (run_game r), black_turn (run_game r), check_winner (run_game r)))
     (main_loop (Game_init 3)
        [[MouseButtonUp 0 1], [MouseButtonUp 0 0], [MouseButtonUp 1 0], [KeyDown_Return],
         [MouseButtonUp 2 2]])
     = Inr (True, [[0, 1, 0], [1, 0, 0], [0, 0, 2]], False, Some ''Black'') \<and>
   map_sum id is_waiting
     (main_loop (Game_init 3)
        [[MouseButtonUp 0 1], [MouseButtonUp 0 0], [MouseButtonUp 1 0], [Quit]])
     = Inl SystemExit"
  by code_simp

text \<open>
  C4: \<open>check_winner\<close> returns Black when Black's prisoner count is at least the
  winning threshold, otherwise White when White's count is at least the threshold,
  otherwise no winner; the threshold is 1, and when both counters have reached it Black
  is returned.
\<close>

theorem check_winner_threshold:
  "(prisoners g ''black'' \<ge> WINNING_SCORE \<longrightarrow> check_winner g = Some ''Black'') \<and>
   (prisoners g ''black'' < WINNING_SCORE \<and> prisoners g ''white'' \<ge> WINNING_SCORE
      \<longrightarrow> check_winner g = Some ''White'') \<and>
   (prisoners g ''black'' < WINNING_SCORE \<and> prisoners g ''white'' < WINNING_SCORE
      \<longrightarrow> check_winner g = None) \<and>
   WINNING_SCORE = 1"
  by (simp add: check_winner_def WINNING_SCORE_def)

theorem check_winner_threshold_witness:
  "prisoners ((Game_init 2)\<lparr>prisoners := (\<lambda>c. 1)\<rparr>) ''black'' \<ge> WINNING_SCORE \<and>
   prisoners ((Game_init 2)\<lparr>prisoners := (\<lambda>c. 1)\<rparr>) ''white'' \<ge> WINNING_SCORE \<and>
   check_winner ((Game_init 2)\<lparr>prisoners := (\<lambda>c. 1)\<rparr>) = Some ''Black'' \<and>
   prisoners ((Game_init 2)\<lparr>prisoners := (\<lambda>c. if c = ''white'' then 3 else 0)\<rparr>) ''black'' < WINNING_SCORE \<and>
   prisoners ((Game_init 2)\<lparr>prisoners := (\<lambda>c. if c = ''white'' then 3 else 0)\<rparr>) ''white'' \<ge> WINNING_SCORE \<and>
   check_winner ((Game_init 2)\<lparr>prisoners := (\<lambda>c. if c = ''white'' then 3 else 0)\<rparr>) = Some ''White'' \<and>
   prisoners (Game_init 2) ''black'' < WINNING_SCORE \<and>
   prisoners (Game_init 2) ''white'' < WINNING_SCORE \<and>
   check_winner (Game_init 2) = None"
  using check_winner_threshold [of "(Game_init 2)\<lparr>prisoners := (\<lambda>c. 1)\<rparr>"]
    check_winner_threshold [of "(Game_init 2)\<lparr>prisoners := (\<lambda>c. if c = ''white'' then 3 else 0)\<rparr>"]
    check_winner_threshold [of "Game_init 2"]
  by (simp add: Game_init_def WINNING_SCORE_def)

text \<open>
  C5: \<open>is_valid_move\<close> (the module function and the method of the game) is true
  exactly when column and row lie within \<open>[0, N)\<close> and the cell there is empty; for a
  position outside the grid it is false whatever the board holds.
\<close>

theorem is_valid_move_iff:
  "(\<not> in_bounds b (col, row) \<longrightarrow>
      is_valid_move col row b = Inr False \<and>
      Game_is_valid_move (g\<lparr>board := b\<rparr>) col row = Inr False) \<and>
   (square b \<longrightarrow>
      is_valid_move col row b = Inr (in_bounds b (col, row) \<and> getitem b col row = Inr 0) \<and>
      Game_is_valid_move (g\<lparr>board := b\<rparr>) col row
        = Inr (in_bounds b (col, row) \<and> getitem b col row = Inr 0))"
proof (intro conjI impI)
  assume "\<not> in_bounds b (col, row)"
  then show "is_valid_move col row b = Inr False"
    "Game_is_valid_move (g\<lparr>board := b\<rparr>) col row = Inr False"
    by (auto simp: in_bounds_def is_valid_move_def Game_is_valid_move_def)
next
  assume sq: "square b"
  have "is_valid_move col row b = Inr (in_bounds b (col, row) \<and> getitem b col row = Inr 0)
      \<and> Game_is_valid_move (g\<lparr>board := b\<rparr>) col row
        = Inr (in_bounds b (col, row) \<and> getitem b col row = Inr 0)"
  proof (cases "in_bounds b (col, row)")
    case True
    then have "\<not> (col < 0 \<or> col \<ge> shape0 b)" "\<not> (row < 0 \<or> row \<ge> shape0 b)"
      by (auto simp: in_bounds_def)
    then show ?thesis
      using True by (simp add: is_valid_move_def Game_is_valid_move_def
          empty_at_cell[OF sq True] getitem_cell[OF sq True])
  next
    case False
    then show ?thesis
      by (auto simp: in_bounds_def is_valid_move_def Game_is_valid_move_def)
  qed
  then show "is_valid_move col row b = Inr (in_bounds b (col, row) \<and> getitem b col row = Inr 0)"
    "Game_is_valid_move (g\<lparr>board := b\<rparr>) col row
        = Inr (in_bounds b (col, row) \<and> getitem b col row = Inr 0)"
    by simp_all
qed

theorem is_valid_move_iff_witness:
  "\<not> in_bounds [[0, 1], [2, 0]] (2, 0) \<and> is_valid_move 2 0 [[0, 1], [2, 0]] = Inr False \<and>
   \<not> in_bounds [[0, 1], [2, 0]] (0, -1) \<and> is_valid_move 0 (-1) [[0, 1], [2, 0]] = Inr False \<and>
   square [[0, 1], [2, 0]] \<and>
   is_valid_move 1 1 [[0, 1], [2, 0]] = Inr True \<and>
   is_valid_move 0 1 [[0, 1], [2, 0]] = Inr False \<and>
   Game_is_valid_move ((Game_init 2)\<lparr>board := [[0, 1], [2, 0]]\<rparr>) 1 1 = Inr True \<and>
   Game_is_valid_move ((Game_init 2)\<lparr>board := [[0, 1], [2, 0]]\<rparr>) 1 0 = Inr False"
  using is_valid_move_iff [of "[[0, 1], [2, 0]]" 2 0 "Game_init 2"]
    is_valid_move_iff [of "[[0, 1], [2, 0]]" 0 "-1" "Game_init 2"]
    is_valid_move_iff [of "[[0, 1], [2, 0]]" 1 1 "Game_init 2"]
    is_valid_move_iff [of "[[0, 1], [2, 0]]" 0 1 "Game_init 2"]
    is_valid_move_iff [of "[[0, 1], [2, 0]]" 1 0 "Game_init 2"]
  by (simp add: in_bounds_def shape0_def square_def getitem_def norm_index_def)

text \<open>
  C6: for a group of positions of the grid, \<open>has_no_liberties\<close> is true exactly when
  every 4-neighbour inside the grid of every member is non-empty; a neighbour outside the
  grid is not looked at.
\<close>

theorem has_no_liberties_iff:
  assumes "square b" and "list_all (in_bounds b) g"
  shows "has_no_liberties b g =
         Inr (\<forall>p\<in>set g. \<forall>q. adjacent p q \<and> in_bounds b q \<longrightarrow> getitem b (fst q) (snd q) \<noteq> Inr 0)"
proof -
  from assms(2) have ib: "\<forall>p\<in>set g. in_bounds b p" by (simp add: list_all_iff)
  show ?thesis
    unfolding has_no_liberties_cell[OF assms(1) ib] has_liberty_at_def by auto
qed

theorem has_no_liberties_iff_witness:
  "square [[2, 1, 0], [1, 0, 0], [0, 0, 2]] \<and>
   list_all (in_bounds [[2, 1, 0], [1, 0, 0], [0, 0, 2]]) [(0, 0)] \<and>
   has_no_liberties [[2, 1, 0], [1, 0, 0], [0, 0, 2]] [(0, 0)] = Inr True \<and>
   has_no_liberties [[2, 1, 0], [1, 0, 0], [0, 0, 2]] [(0, 0)] =
     Inr (\<forall>p\<in>set [(0, 0)]. \<forall>q. adjacent p q \<and> in_bounds [[2, 1, 0], [1, 0, 0], [0, 0, 2]] q
      \<longrightarrow> getitem [[2, 1, 0], [1, 0, 0], [0, 0, 2]] (fst q) (snd q) \<noteq> Inr 0)"
proof -
  have sq: "square [[2, 1, 0], [1, 0, 0], [0, 0, 2]]" by (simp add: square_def)
  have ib: "list_all (in_bounds [[2, 1, 0], [1, 0, 0], [0, 0, 2]]) [(0, 0)]"
    by (simp add: in_bounds_def shape0_def)
  have ev: "has_no_liberties [[2, 1, 0], [1, 0, 0], [0, 0, 2]] [(0, 0)] = Inr True"
    by (simp add: shape0_def empty_at_def getitem_def norm_index_def)
  from has_no_liberties_iff [OF sq ib] ev sq ib show ?thesis by blast
qed

text \<open>
  C7: the groups that \<open>get_stone_groups\<close> returns for a colour partition the stones of
  that colour: their union is the set of positions holding the colour, different groups
  are disjoint, every stone lies in exactly one group, every group is non-empty, without
  repetition, 4-connected and maximal, and a stone with no neighbour of its colour forms
  a singleton group.
\<close>

theorem get_stone_groups_partition:
  assumes "square b"
  shows "\<Union> (set ` set (get_stone_groups b color)) = stones_of b color \<and>
    distinct (get_stone_groups b color) \<and>
    (\<forall>g\<in>set (get_stone_groups b color). \<forall>h\<in>set (get_stone_groups b color).
        g \<noteq> h \<longrightarrow> set g \<inter> set h = {}) \<and>
    (\<forall>p\<in>stones_of b color. \<exists>!g. g \<in> set (get_stone_groups b color) \<and> p \<in> set g) \<and>
    (\<forall>g\<in>set (get_stone_groups b color).
        g \<noteq> [] \<and> distinct g \<and>
        (\<forall>p\<in>set g. \<forall>q\<in>set g. (p, q) \<in> (adj_rel (set g))\<^sup>*) \<and>
        (\<forall>p\<in>set g. \<forall>q\<in>stones_of b color. adjacent p q \<longrightarrow> q \<in> set g)) \<and>
    (\<forall>p\<in>stones_of b color. (\<forall>q\<in>stones_of b color. \<not> adjacent p q)
        \<longrightarrow> [p] \<in> set (get_stone_groups b color))"
proof (intro conjI ballI impI)
  show "\<Union> (set ` set (get_stone_groups b color)) = stones_of b color"
    by (rule groups_cover[OF assms])
  show "distinct (get_stone_groups b color)" by (rule groups_distinct)
next
  fix g h assume "g \<in> set (get_stone_groups b color)" "h \<in> set (get_stone_groups b color)" "g \<noteq> h"
  then show "set g \<inter> set h = {}" by (rule groups_disjoint)
next
  fix p assume p: "p \<in> stones_of b color"
  with groups_cover[OF assms, of color] obtain g
    where g: "g \<in> set (get_stone_groups b color)" "p \<in> set g" by auto
  show "\<exists>!g. g \<in> set (get_stone_groups b color) \<and> p \<in> set g"
  proof (rule ex1I[of _ g])
    show "g \<in> set (get_stone_groups b color) \<and> p \<in> set g" using g by simp
  next
    fix h assume h: "h \<in> set (get_stone_groups b color) \<and> p \<in> set h"
    show "h = g"
    proof (rule ccontr)
      assume "h \<noteq> g"
      with h g(1) have "set h \<inter> set g = {}" by (intro groups_disjoint) simp_all
      with h g(2) show False by auto
    qed
  qed
next
  fix g assume g: "g \<in> set (get_stone_groups b color)"
  show "g \<noteq> []" by (rule groups_nonempty[OF assms g])
  show "distinct g" by (rule groups_distinct_members[OF g])
next
  fix g p q assume g: "g \<in> set (get_stone_groups b color)" and pq: "p \<in> set g" "q \<in> set g"
  from groups_component[OF assms g] obtain v
    where v: "set g = component_of (stones_of b color) v" by auto
  from pq show "(p, q) \<in> (adj_rel (set g))\<^sup>*" unfolding v by (rule component_of_connected)
next
  fix g p q assume "g \<in> set (get_stone_groups b color)" "p \<in> set g" "q \<in> stones_of b color"
    "adjacent p q"
  then show "q \<in> set g" by (rule groups_maximal[OF assms])
next
  fix p assume p: "p \<in> stones_of b color" and iso: "\<forall>q\<in>stones_of b color. \<not> adjacent p q"
  from p groups_cover[OF assms, of color] obtain g
    where g: "g \<in> set (get_stone_groups b color)" "p \<in> set g" by auto
  from groups_component[OF assms g(1)] obtain v
    where v: "set g = component_of (stones_of b color) v" by auto
  from g(2) v have "set g = component_of (stones_of b color) p" by (simp add: component_of_eq)
  with component_of_isolated[OF iso] have "set g = {p}" by simp
  moreover have "distinct g" by (rule groups_distinct_members[OF g(1)])
  ultimately have "g = [p]" by (intro distinct_singleton_list)
  with g(1) show "[p] \<in> set (get_stone_groups b color)" by simp
qed

theorem get_stone_groups_partition_witness:
  "square [[1, 1, 0], [0, 1, 2], [1, 0, 2]] \<and>
   get_stone_groups [[1, 1, 0], [0, 1, 2], [1, 0, 2]] ''black'' = [[(0, 0), (0, 1), (1, 1)], [(2, 0)]] \<and>
   stones_of [[1, 1, 0], [0, 1, 2], [1, 0, 2]] ''black'' = \<Union> (set ` set [[(0, 0), (0, 1), (1, 1)], [(2, 0)]])"
proof -
  have sq: "square [[1, 1, 0], [0, 1, 2], [1, 0, 2]]" by (simp add: square_def)
  have ev: "get_stone_groups [[1, 1, 0], [0, 1, 2], [1, 0, 2]] ''black''
      = [[(0, 0), (0, 1), (1, 1)], [(2, 0)]]"
    by code_simp
  from get_stone_groups_partition [OF sq, of "''black''"]
  have "\<Union> (set ` set (get_stone_groups [[1, 1, 0], [0, 1, 2], [1, 0, 2]] ''black''))
      = stones_of [[1, 1, 0], [0, 1, 2], [1, 0, 2]] ''black''"
    by (rule conjunct1)
  then have st: "stones_of [[1, 1, 0], [0, 1, 2], [1, 0, 2]] ''black''
      = \<Union> (set ` set [[(0, 0), (0, 1), (1, 1)], [(2, 0)]])"
    unfolding ev by (rule sym)
  show ?thesis by (rule conjI[OF sq conjI[OF ev st]])
qed

text \<open>
  C8: placing a stone on an empty position of the grid, capture pass included, leaves
  the code of the player to move at that position, for \<open>place_stone\<close> and for the whole
  \<open>handle_click\<close>, whether it returns or is still showing the winner message, unless a
  quit request ends the program there.
\<close>

theorem place_stone_color_at:
  assumes "square (board g)" "in_bounds (board g) (col, row)" "getitem (board g) col row = Inr 0"
  shows "(\<exists>g'. place_stone g col row = Inr g' \<and>
            getitem (board g') col row = Inr (if black_turn g then 1 else 2)) \<and>
         (\<forall>queue. handle_click g col row queue = Inl SystemExit \<or>
            (\<exists>r. handle_click g col row queue = Inr r \<and>
               getitem (board (run_game r)) col row = Inr (if black_turn g then 1 else 2)))"
proof -
  from place_stone_keeps[OF assms(1,2)] obtain g' where
    g': "place_stone g col row = Inr g'" "getitem (board g') col row = Inr (player_code g)"
    by blast
  have "handle_click g col row queue = Inl SystemExit \<or>
      (\<exists>r. handle_click g col row queue = Inr r \<and>
         getitem (board (run_game r)) col row = Inr (player_code g))" for queue
    using handle_click_outcome[OF assms g'(1), of queue] g'(2) by auto
  with g' show ?thesis unfolding player_code_def by blast
qed

theorem place_stone_color_at_witness:
  "square (board ((Game_init 3)\<lparr>board := [[0, 1, 0], [1, 0, 0], [0, 0, 2]], black_turn := False\<rparr>)) \<and>
   in_bounds (board ((Game_init 3)\<lparr>board := [[0, 1, 0], [1, 0, 0], [0, 0, 2]], black_turn := False\<rparr>)) (0, 0) \<and>
   getitem (board ((Game_init 3)\<lparr>board := [[0, 1, 0], [1, 0, 0], [0, 0, 2]], black_turn := False\<rparr>)) 0 0 = Inr 0 \<and>
   map_sum id (\<lambda>g'. getitem (board g') 0 0)
     (place_stone ((Game_init 3)\<lparr>board := [[0, 1, 0], [1, 0, 0], [0, 0, 2]], black_turn := False\<rparr>) 0 0)
     = Inr (Inr 2)"
proof -
  let ?g = "(Game_init 3)\<lparr>board := [[0, 1, 0], [1, 0, 0], [0, 0, 2]], black_turn := False\<rparr>"
  have sq: "square (board ?g)" by (simp add: square_def)
  have ib: "in_bounds (board ?g) (0, 0)" by (simp add: in_bounds_def shape0_def)
  have em: "getitem (board ?g) 0 0 = Inr 0" by (simp add: getitem_def norm_index_def)
  from place_stone_color_at [OF sq ib em] obtain g' where
    "place_stone ?g 0 0 = Inr g'" "getitem (board g') 0 0 = Inr (if black_turn ?g then 1 else 2)"
    by blast
  then have "map_sum id (\<lambda>g'. getitem (board g') 0 0) (place_stone ?g 0 0) = Inr (Inr 2)"
    by simp
  with sq ib em show ?thesis by blast
qed

text \<open>
  C9: a click on an occupied position or on a position outside the grid is rejected and
  leaves the whole game unchanged: board, turn and prisoner counters.
\<close>

theorem handle_click_invalid_unchanged:
  assumes "square (board g)"
    and "\<not> in_bounds (board g) (col, row) \<or> getitem (board g) col row \<noteq> Inr 0"
  shows "handle_click g col row queue = Inr (Returned g queue) \<and>
         update g ([MouseButtonUp col row] # queue) = Inr (Returned g queue)"
proof -
  have "Game_is_valid_move g col row = Inr False"
  proof (cases "in_bounds (board g) (col, row)")
    case True
    then have "\<not> (col < 0 \<or> col \<ge> shape0 (board g) \<or> row < 0 \<or> row \<ge> shape0 (board g))"
      by (auto simp: in_bounds_def)
    moreover from assms(2) True have "cell (board g) (col, row) \<noteq> 0"
      using getitem_cell[OF assms(1) True] by simp
    ultimately show ?thesis
      by (simp add: Game_is_valid_move_def empty_at_cell[OF assms(1) True])
  next
    case False
    then show ?thesis by (auto simp: in_bounds_def Game_is_valid_move_def)
  qed
  then show ?thesis by (simp add: handle_click_def update_def)
qed

theorem handle_click_invalid_unchanged_witness:
  "square (board ((Game_init 2)\<lparr>board := [[0, 1], [2, 0]]\<rparr>)) \<and>
   getitem (board ((Game_init 2)\<lparr>board := [[0, 1], [2, 0]]\<rparr>)) 0 1 \<noteq> Inr 0 \<and>
   handle_click ((Game_init 2)\<lparr>board := [[0, 1], [2, 0]]\<rparr>) 0 1 [[KeyUp_p]]
     = Inr (Returned ((Game_init 2)\<lparr>board := [[0, 1], [2, 0]]\<rparr>) [[KeyUp_p]]) \<and>
   \<not> in_bounds (board ((Game_init 2)\<lparr>board := [[0, 1], [2, 0]]\<rparr>)) (-1, 1) \<and>
   handle_click ((Game_init 2)\<lparr>board := [[0, 1], [2, 0]]\<rparr>) (-1) 1 []
     = Inr (Returned ((Game_init 2)\<lparr>board := [[0, 1], [2, 0]]\<rparr>) [])"
proof -
  let ?g = "(Game_init 2)\<lparr>board := [[0, 1], [2, 0]]\<rparr>"
  have sq: "square (board ?g)" by (simp add: square_def)
  have occ: "getitem (board ?g) 0 1 \<noteq> Inr 0" by (simp add: getitem_def norm_index_def)
  have out: "\<not> in_bounds (board ?g) (-1, 1)" by (simp add: in_bounds_def)
  from handle_click_invalid_unchanged [OF sq disjI2, OF occ, of "[[KeyUp_p]]"]
    handle_click_invalid_unchanged [OF sq disjI1, OF out, of "[]"] sq occ out
  show ?thesis by blast
qed

text \<open>
  C10: the capture sweep for a colour changes nothing but the board, and on the board
  only cells holding that colour, which it empties; every other cell keeps its value. So
  the capture pass after a placement leaves every stone of the player to move in place.
\<close>

theorem capture_stones_frame:
  assumes "square (board g)"
  shows "(\<exists>g' n. capture_stones g color = Inr (g', n) \<and> g' = g\<lparr>board := board g'\<rparr> \<and>
            length (board g') = length (board g) \<and>
            (\<forall>p. in_bounds (board g) p \<longrightarrow>
               getitem (board g') (fst p) (snd p) = getitem (board g) (fst p) (snd p) \<or>
               getitem (board g) (fst p) (snd p) = Inr (color_code color)
                 \<and> getitem (board g') (fst p) (snd p) = Inr 0)) \<and>
         (\<exists>g'. handle_captures g = Inr g' \<and>
            (\<forall>p. in_bounds (board g) p
                  \<and> getitem (board g) (fst p) (snd p) = Inr (if black_turn g then 1 else 2)
               \<longrightarrow> getitem (board g') (fst p) (snd p) = Inr (if black_turn g then 1 else 2)))"
proof
  from capture_stones_cells[OF assms, of color]
  show "\<exists>g' n. capture_stones g color = Inr (g', n) \<and> g' = g\<lparr>board := board g'\<rparr> \<and>
            length (board g') = length (board g) \<and>
            (\<forall>p. in_bounds (board g) p \<longrightarrow>
               getitem (board g') (fst p) (snd p) = getitem (board g) (fst p) (snd p) \<or>
               getitem (board g) (fst p) (snd p) = Inr (color_code color)
                 \<and> getitem (board g') (fst p) (snd p) = Inr 0)"
    by blast
next
  from handle_captures_cells[OF assms] obtain g' where
    run: "handle_captures g = Inr g'"
    and cells: "\<forall>p. in_bounds (board g) p \<longrightarrow>
              getitem (board g') (fst p) (snd p) = getitem (board g) (fst p) (snd p) \<or>
              getitem (board g) (fst p) (snd p)
                  = Inr (color_code (if black_turn g then ''white'' else ''black''))
                \<and> getitem (board g') (fst p) (snd p) = Inr 0"
    by blast
  have "getitem (board g') (fst p) (snd p) = Inr (if black_turn g then 1 else 2)"
    if "in_bounds (board g) p" "getitem (board g) (fst p) (snd p) = Inr (if black_turn g then 1 else 2)"
    for p
  proof -
    from that(2) have "getitem (board g) (fst p) (snd p)
        \<noteq> Inr (color_code (if black_turn g then ''white'' else ''black''))"
      by (simp add: color_code_def)
    with cells that show ?thesis by metis
  qed
  with run show "\<exists>g'. handle_captures g = Inr g' \<and>
            (\<forall>p. in_bounds (board g) p
                  \<and> getitem (board g) (fst p) (snd p) = Inr (if black_turn g then 1 else 2)
               \<longrightarrow> getitem (board g') (fst p) (snd p) = Inr (if black_turn g then 1 else 2))"
    by blast
qed

theorem capture_stones_frame_witness:
  "square (board ((Game_init 3)\<lparr>board := [[2, 1, 0], [1, 0, 1], [0, 1, 2]]\<rparr>)) \<and>
   in_bounds (board ((Game_init 3)\<lparr>board := [[2, 1, 0], [1, 0, 1], [0, 1, 2]]\<rparr>)) (0, 1) \<and>
   getitem (board ((Game_init 3)\<lparr>board := [[2, 1, 0], [1, 0, 1], [0, 1, 2]]\<rparr>)) 0 1 = Inr 1 \<and>
   map_sum id (\<lambda>g'. getitem (board g') 0 1)
     (handle_captures ((Game_init 3)\<lparr>board := [[2, 1, 0], [1, 0, 1], [0, 1, 2]]\<rparr>)) = Inr (Inr 1)"
proof -
  let ?g = "(Game_init 3)\<lparr>board := [[2, 1, 0], [1, 0, 1], [0, 1, 2]]\<rparr>"
  have sq: "square (board ?g)" by (simp add: square_def)
  have ib: "in_bounds (board ?g) (0, 1)" by (simp add: in_bounds_def shape0_def)
  have bl: "getitem (board ?g) 0 1 = Inr 1" by (simp add: getitem_def norm_index_def)
  have turn: "black_turn ?g" by (simp add: Game_init_def)
  from capture_stones_frame [OF sq, of "''white''"] obtain g' where
    run: "handle_captures ?g = Inr g'"
    and keep: "\<forall>p. in_bounds (board ?g) p
                  \<and> getitem (board ?g) (fst p) (snd p) = Inr (if black_turn ?g then 1 else 2)
               \<longrightarrow> getitem (board g') (fst p) (snd p) = Inr (if black_turn ?g then 1 else 2)"
    by blast
  from keep [rule_format, of "(0, 1)"] ib bl turn
  have "getitem (board g') 0 1 = Inr 1" by simp
  with run have "map_sum id (\<lambda>g'. getitem (board g') 0 1) (handle_captures ?g) = Inr (Inr 1)"
    by simp
  with sq ib bl show ?thesis by blast
qed

end
